theory Spec2Isabelle
  imports Main "HOL-Library.AList" "HOL-Library.Sublist"
begin

section \<open>The event emitter of aionevents\<close>

text \<open>
  The repository is one class, \<open>EventEmitter\<close> (two variants of the same file, which
  differ in the names of the private fields and in the static \<open>Fire\<close>), the value
  class \<open>Event\<close>, and decorators that call the static methods.

  Emitters are objects that refer to each other (\<open>wiredEmitters\<close>) and that
  callbacks mutate while a dispatch is running (\<open>once\<close> removes its own event), so
  the model is a store: a state maps emitter references to emitter records, and every
  method takes the state and returns the new one.  A method that can throw returns a
  \<open>result\<close>, which keeps the state reached when the exception left the method.

  Boundaries of the model.
  \<^item> The type \<open>Events = { [hook: string]: Event[] }\<close> is modelled as an association
    list from hook names to event lists, in the order in which JavaScript lists the own
    properties of an object.  The objects are object literals, so a lookup that finds
    no own property finds what \<open>Object.prototype\<close> holds under that name
    (\<open>constructor\<close>, \<open>toString\<close>, ...): see \<open>inherited\<close>.
  \<^item> A callback is \<open>undefined\<close>, \<open>null\<close>, a function supplied by the user, or
    the closure \<open>oneTimeCallback\<close> that \<open>Once\<close> builds.  A user function is an
    observer: its call is recorded, it may assign to properties of the argument object
    it receives, and it returns (\<open>Fn\<close>) or throws (\<open>Throwing\<close>).  User
    functions that call back into an emitter (\<open>on\<close>, \<open>off\<close>, \<open>wire\<close>,
    \<open>fire\<close> from inside a callback) are not modelled.
  \<^item> Events are compared by their fields, where the source compares object
    identities (\<open>indexOf\<close> in \<open>off\<close>); there the two agree, since the event
    looked for is the first of the array with its callback.
  \<^item> \<open>classEvents\<close> is a field of each emitter; that the instances of a class
    share the object their prototype holds is not modelled.
\<close>

subsection \<open>Values, callbacks, events\<close>

type_synonym ref = nat
type_synonym addr = nat

datatype val = Num int | Str string | Obj addr

type_synonym obj = "(string \<times> val) list"

text \<open>
  What a call can throw: the TypeError of the language, or the value that a user
  function throws (\<open>Raised i\<close> for the function of identity \<open>i\<close>).
\<close>

datatype error = TypeError | Raised nat

text \<open>
  Functions are compared by reference (\<open>event.callback === callback\<close>).  A user
  function is \<open>Fn i ws\<close> or \<open>Throwing i ws\<close>: \<open>i\<close> is its identity and
  \<open>ws\<close> the property assignments it makes to its argument; the first returns, the
  second throws after the assignments.  \<open>OneTimeCallback i eventName callback\<close> is
  the closure created by the \<open>i\<close>-th call of \<open>Once\<close>, with the two variables it
  captures.
\<close>

datatype callback =
    Undefined
  | Null
  | Fn nat "(string \<times> val) list"
  | Throwing nat "(string \<times> val) list"
  | OneTimeCallback nat string callback

text \<open>
  The value of \<open>this\<close> in a call: an emitter, or the class \<open>EventEmitter\<close>
  itself, which is what \<open>this\<close> denotes inside a static method called as
  \<open>EventEmitter.Fire(...)\<close>.
\<close>

datatype ctx = Emitter ref | ClassCtor

record event =
  name :: string
  callback :: callback
  source :: ref
  params :: obj

text \<open>The constructor of \<open>Event\<close>, called with \<open>{ hook, callback, source, params }\<close>.\<close>

definition Event :: "string \<Rightarrow> callback \<Rightarrow> ref \<Rightarrow> obj \<Rightarrow> event" where
  "Event hook cb src ps = \<lparr>name = hook, callback = cb, source = src, params = ps\<rparr>"

type_synonym Events = "(string \<times> event list) list"

record emitter =
  instanceEvents :: Events
  classEvents :: Events
  wiredEmitters :: "ref list"

text \<open>
  The two places of the source that call a callback: the dispatch loops of
  \<open>fire\<close>/\<open>Fire\<close>, and the body of \<open>oneTimeCallback\<close>.
\<close>

datatype site = Dispatch | Wrapper

record call =
  site :: site
  callee :: callback
  this :: ctx
  arg :: addr
  seen :: obj

record state =
  emitters :: "ref \<Rightarrow> emitter"
  objects :: "addr \<Rightarrow> obj"
  nextobj :: addr
  nextfn :: nat
  calls :: "call list"

datatype 'a result = Return 'a state | Throw error state

fun state_of :: "'a result \<Rightarrow> state" where
  "state_of (Return _ s) = s"
| "state_of (Throw _ s) = s"

text \<open>\<open>returning x r\<close>: the statement \<open>return x\<close> after the call \<open>r\<close>.\<close>

fun returning :: "'b \<Rightarrow> 'a result \<Rightarrow> 'b result" where
  "returning x (Return _ s) = Return x s"
| "returning x (Throw err s) = Throw err s"

subsection \<open>Object literals as dictionaries\<close>

text \<open>
  \<open>instanceEvents\<close> and \<open>classEvents\<close> are created as \<open>{}\<close>, and the class
  reads them with \<open>obj[eventName]\<close>, never testing for an own property.  When the
  object has no own property of that name, the read finds the property of
  \<open>Object.prototype\<close>, if there is one.  \<open>object_prototype\<close> lists these
  properties (ECMAScript, with the legacy accessors), each with the \<open>length\<close> of its
  value: the functions have the number of their parameters, and \<open>__proto__\<close> reads
  as \<open>Object.prototype\<close> itself, which has no \<open>length\<close>.  All these values are
  truthy, none has an element \<open>[0]\<close>, and none has a method \<open>find\<close> or
  \<open>push\<close>.
\<close>

definition object_prototype :: "(string \<times> nat option) list" where
  "object_prototype =
     [(''constructor'', Some 1),
      (''hasOwnProperty'', Some 1),
      (''isPrototypeOf'', Some 1),
      (''propertyIsEnumerable'', Some 1),
      (''toLocaleString'', Some 0),
      (''toString'', Some 0),
      (''valueOf'', Some 0),
      (''__proto__'', None),
      (''__defineGetter__'', Some 2),
      (''__defineSetter__'', Some 2),
      (''__lookupGetter__'', Some 1),
      (''__lookupSetter__'', Some 1)]"

text \<open>
  \<open>inherited k\<close>: \<open>None\<close> when \<open>Object.prototype\<close> has no property \<open>k\<close>,
  and otherwise the \<open>length\<close> of the value found (\<open>None\<close> for \<open>undefined\<close>).
\<close>

definition inherited :: "string \<Rightarrow> nat option option" where
  "inherited k = map_of object_prototype k"

text \<open>
  How often \<open>for (let e = 0; e < len; e++)\<close> turns: \<open>e < undefined\<close> is false.
\<close>

fun turns :: "nat option \<Rightarrow> nat" where
  "turns None = 0"
| "turns (Some n) = n"

text \<open>
  \<open>throwing_hook h\<close>: on an object without an own property \<open>h\<close>, the loop
  \<^verbatim>\<open>for (let e = 0; e < obj[h].length; e++) { obj[h][e].callback ... }\<close>
  reads \<open>.callback\<close> of \<open>undefined\<close>: \<open>h\<close> names an inherited function that
  declares a parameter (\<open>constructor\<close>, \<open>hasOwnProperty\<close>, ...).
\<close>

definition throwing_hook :: "string \<Rightarrow> bool" where
  "throwing_hook h = (case inherited h of None \<Rightarrow> False | Some len \<Rightarrow> 0 < turns len)"

text \<open>
  The own properties of an object are listed with the array indices first, in
  ascending order, then the other names in the order of their creation.  An array
  index is the canonical decimal numeral of a number below 4294967295 (two to the power 32, less one).
\<close>

definition digit :: "char \<Rightarrow> bool" where
  "digit c \<longleftrightarrow> c \<in> set ''0123456789''"

definition decimal :: "string \<Rightarrow> int" where
  "decimal k = foldl (\<lambda>n c. 10 * n + (of_char c - 48)) 0 k"

definition array_index :: "string \<Rightarrow> int option" where
  "array_index k =
     (if k \<noteq> [] \<and> list_all digit k \<and> (k = ''0'' \<or> hd k \<noteq> CHR ''0'') \<and> decimal k < 4294967295
      then Some (decimal k) else None)"

text \<open>A new own property \<open>k\<close> takes its place among the properties \<open>kvs\<close>.\<close>

fun insert_key :: "string \<Rightarrow> 'v \<Rightarrow> (string \<times> 'v) list \<Rightarrow> (string \<times> 'v) list" where
  "insert_key k v [] = [(k, v)]"
| "insert_key k v ((k', v') # kvs) =
     (case array_index k of
        None \<Rightarrow> (k', v') # insert_key k v kvs
      | Some n \<Rightarrow>
          (case array_index k' of
             None \<Rightarrow> (k, v) # (k', v') # kvs
           | Some n' \<Rightarrow> if n' < n then (k', v') # insert_key k v kvs
                        else (k, v) # (k', v') # kvs))"

text \<open>\<open>obj[k] = v\<close> on an own data property: an existing property keeps its place.\<close>

definition set_prop :: "string \<Rightarrow> 'v \<Rightarrow> (string \<times> 'v) list \<Rightarrow> (string \<times> 'v) list" where
  "set_prop k v kvs =
     (case map_of kvs k of
        Some _ \<Rightarrow> AList.update k v kvs
      | None \<Rightarrow> insert_key k v kvs)"

text \<open>The own property \<open>eventName\<close> of \<open>instanceEvents\<close>, if there is one.\<close>

definition hookEvents :: "state \<Rightarrow> ref \<Rightarrow> string \<Rightarrow> event list option" where
  "hookEvents s r eventName = map_of (instanceEvents (emitters s r)) eventName"

definition set_instanceEvents :: "ref \<Rightarrow> Events \<Rightarrow> state \<Rightarrow> state" where
  "set_instanceEvents r evs s =
     s\<lparr>emitters := (emitters s)(r := (emitters s r)\<lparr>instanceEvents := evs\<rparr>)\<rparr>"

definition set_classEvents :: "ref \<Rightarrow> Events \<Rightarrow> state \<Rightarrow> state" where
  "set_classEvents r evs s =
     s\<lparr>emitters := (emitters s)(r := (emitters s r)\<lparr>classEvents := evs\<rparr>)\<rparr>"

subsection \<open>Registration: \<open>registerEvent\<close>, \<open>On\<close>, \<open>on\<close>, \<open>Once\<close>, \<open>once\<close>, \<open>wire\<close>\<close>

text \<open>
  \<open>target.instanceEvents[event.name] ??= []; target.instanceEvents[event.name].push(event)\<close>.
  With an own array under the name, the event is pushed.  With no own property and
  nothing inherited, the array is created.  With no own property and an inherited value,
  \<open>??=\<close> assigns nothing (the value is not nullish) and \<open>.push\<close> is not a
  function: a TypeError, here \<open>None\<close>.
\<close>

definition push_event :: "event \<Rightarrow> Events \<Rightarrow> Events option" where
  "push_event ev evs =
     (case map_of evs (name ev) of
        Some xs \<Rightarrow> Some (AList.update (name ev) (xs @ [ev]) evs)
      | None \<Rightarrow>
          (case inherited (name ev) of
             None \<Rightarrow> Some (insert_key (name ev) [ev] evs)
           | Some _ \<Rightarrow> None))"

definition registerEvent :: "ref \<Rightarrow> event \<Rightarrow> bool \<Rightarrow> state \<Rightarrow> unit result" where
  "registerEvent target ev isClassEvent s =
     (if isClassEvent
      then (case push_event ev (classEvents (emitters s target)) of
              None \<Rightarrow> Throw TypeError s
            | Some evs \<Rightarrow> Return () (set_classEvents target evs s))
      else (case push_event ev (instanceEvents (emitters s target)) of
              None \<Rightarrow> Throw TypeError s
            | Some evs \<Rightarrow> Return () (set_instanceEvents target evs s)))"

definition On :: "string \<Rightarrow> callback \<Rightarrow> ref \<Rightarrow> bool \<Rightarrow> state \<Rightarrow> ref result" where
  "On eventName cb target classDefined s =
     returning target (registerEvent target (Event eventName cb target []) classDefined s)"

definition on :: "ref \<Rightarrow> string \<Rightarrow> callback \<Rightarrow> state \<Rightarrow> ref result" where
  "on self eventName cb s = returning self (On eventName cb self False s)"

definition Once :: "string \<Rightarrow> callback \<Rightarrow> ref \<Rightarrow> bool \<Rightarrow> state \<Rightarrow> ref result" where
  "Once eventName cb target classDefined s =
     (let oneTimeCallback = OneTimeCallback (nextfn s) eventName cb
      in returning target
           (registerEvent target (Event eventName oneTimeCallback target [])
              classDefined (s\<lparr>nextfn := Suc (nextfn s)\<rparr>)))"

definition once :: "ref \<Rightarrow> string \<Rightarrow> callback \<Rightarrow> state \<Rightarrow> ref result" where
  "once self eventName cb s = returning self (Once eventName cb self False s)"

definition wire :: "ref \<Rightarrow> ref \<Rightarrow> state \<Rightarrow> ref \<times> state" where
  "wire self eventable s =
     (self,
      s\<lparr>emitters := (emitters s)
          (self := (emitters s self)\<lparr>wiredEmitters := wiredEmitters (emitters s self) @ [eventable]\<rparr>)\<rparr>)"

subsection \<open>Removal: \<open>off\<close>\<close>

text \<open>
  \<open>Array.prototype.indexOf\<close> answers \<open>-1\<close> for an absent element, and
  \<open>splice(index, 1)\<close> counts a negative index from the end of the array.
\<close>

fun indexOf :: "'a list \<Rightarrow> 'a \<Rightarrow> int" where
  "indexOf [] x = -1"
| "indexOf (y # ys) x =
     (if y = x then 0 else (let i = indexOf ys x in if i < 0 then -1 else i + 1))"

definition splice1 :: "'a list \<Rightarrow> int \<Rightarrow> 'a list" where
  "splice1 xs index =
     (let start = (if index < 0 then max (int (length xs) + index) 0
                   else min index (int (length xs)))
      in take (nat start) xs @ drop (nat start + 1) xs)"

text \<open>
  \<^verbatim>\<open>if (!this.instanceEvents[eventName]) return this;
  const eventToDelete = this.instanceEvents[eventName].find(...);\<close>
  With no own property, the test lets an inherited value through, and calling its
  \<open>find\<close> is a TypeError.
\<close>

definition off :: "ref \<Rightarrow> string \<Rightarrow> callback \<Rightarrow> state \<Rightarrow> ref result" where
  "off self eventName cb s =
     (case hookEvents s self eventName of
        None \<Rightarrow>
          (case inherited eventName of
             None \<Rightarrow> Return self s
           | Some _ \<Rightarrow> Throw TypeError s)
      | Some evs \<Rightarrow>
          (case find (\<lambda>event. callback event = cb) evs of
             None \<Rightarrow> Return self s
           | Some eventToDelete \<Rightarrow>
               Return self
                 (set_instanceEvents self
                    (AList.update eventName (splice1 evs (indexOf evs eventToDelete))
                       (instanceEvents (emitters s self))) s)))"

subsection \<open>Calling a callback\<close>

text \<open>\<open>{ ...params }\<close>: a new object with the properties of \<open>params\<close>.\<close>

definition spread :: "addr \<Rightarrow> state \<Rightarrow> addr \<times> state" where
  "spread p s =
     (nextobj s, s\<lparr>objects := (objects s)(nextobj s := objects s p), nextobj := Suc (nextobj s)\<rparr>)"

definition record_call :: "site \<Rightarrow> callback \<Rightarrow> ctx \<Rightarrow> addr \<Rightarrow> state \<Rightarrow> state" where
  "record_call st f c a s =
     s\<lparr>calls := calls s @ [\<lparr>site = st, callee = f, this = c, arg = a, seen = objects s a\<rparr>]\<rparr>"

definition assign_all :: "addr \<Rightarrow> (string \<times> val) list \<Rightarrow> state \<Rightarrow> state" where
  "assign_all a ws s =
     s\<lparr>objects := (objects s)(a := fold (\<lambda>(k, v). set_prop k v) ws (objects s a))\<rparr>"

text \<open>
  \<open>f.call(c, a)\<close>.  Calling \<open>undefined\<close> or \<open>null\<close> is a TypeError.  The body of
  \<open>oneTimeCallback\<close> is
  \<^verbatim>\<open>callback.call(this, ...args); this.off(eventName, oneTimeCallback);\<close>
  and the class \<open>EventEmitter\<close> has no static \<open>off\<close>, so the second statement is
  a TypeError when \<open>this\<close> is the class.  What the wrapped callback throws leaves
  \<open>oneTimeCallback\<close> before \<open>off\<close> is reached.
\<close>

fun apply_callback :: "site \<Rightarrow> callback \<Rightarrow> ctx \<Rightarrow> addr \<Rightarrow> state \<Rightarrow> unit result" where
  "apply_callback st Undefined c a s = Throw TypeError s"
| "apply_callback st Null c a s = Throw TypeError s"
| "apply_callback st (Fn i ws) c a s =
     Return () (assign_all a ws (record_call st (Fn i ws) c a s))"
| "apply_callback st (Throwing i ws) c a s =
     Throw (Raised i) (assign_all a ws (record_call st (Throwing i ws) c a s))"
| "apply_callback st (OneTimeCallback i eventName cb) c a s =
     (case apply_callback Wrapper cb c a
             (record_call st (OneTimeCallback i eventName cb) c a s) of
        Throw e s' \<Rightarrow> Throw e s'
      | Return _ s' \<Rightarrow>
          (case c of
             ClassCtor \<Rightarrow> Throw TypeError s'
           | Emitter r \<Rightarrow> returning () (off r eventName (OneTimeCallback i eventName cb) s')))"

definition falsy :: "callback \<Rightarrow> bool" where
  "falsy cb = (cb = Undefined \<or> cb = Null)"

text \<open>
  \<open>ev.callback.call(c, { ...params })\<close>: reading \<open>.call\<close> of \<open>undefined\<close> or
  \<open>null\<close> throws before the argument is built.
\<close>

definition dispatch :: "callback \<Rightarrow> ctx \<Rightarrow> addr \<Rightarrow> state \<Rightarrow> unit result" where
  "dispatch cb c p s =
     (if falsy cb then Throw TypeError s
      else (case spread p s of (a, s1) \<Rightarrow> apply_callback Dispatch cb c a s1))"

subsection \<open>Callbacks only ever remove events\<close>

text \<open>
  \<open>removes_only s s'\<close>: from \<open>s\<close> to \<open>s'\<close> no emitter gained a hook, an event, a
  class event or a wired emitter; every event list of \<open>s'\<close> is what is left of the
  list of \<open>s\<close> after removing elements.
\<close>

definition removes_only :: "state \<Rightarrow> state \<Rightarrow> bool" where
  "removes_only s s' \<longleftrightarrow>
     (\<forall>r. classEvents (emitters s' r) = classEvents (emitters s r) \<and>
          wiredEmitters (emitters s' r) = wiredEmitters (emitters s r) \<and>
          (\<forall>h. rel_option subseq (hookEvents s' r h) (hookEvents s r h)))"

lemma rel_option_subseq_refl [simp]: "rel_option subseq x x"
  by (cases x) auto

lemma state_of_returning [simp]: "state_of (returning x r) = state_of r"
  by (cases r) simp_all

lemma removes_only_refl: "removes_only s s"
  by (simp add: removes_only_def)

lemma removes_only_trans:
  assumes "removes_only s1 s2" and "removes_only s2 s3"
  shows "removes_only s1 s3"
proof -
  have "rel_option subseq (hookEvents s3 r h) (hookEvents s1 r h)" for r h
  proof -
    have a: "rel_option subseq (hookEvents s3 r h) (hookEvents s2 r h)"
      and b: "rel_option subseq (hookEvents s2 r h) (hookEvents s1 r h)"
      using assms by (simp_all add: removes_only_def)
    show ?thesis
      using a b by (cases "hookEvents s1 r h"; cases "hookEvents s2 r h"; cases "hookEvents s3 r h") auto
  qed
  then show ?thesis
    using assms by (simp add: removes_only_def)
qed

lemma removes_only_emitters:
  "emitters s' = emitters s \<Longrightarrow> removes_only s s'"
  by (simp add: removes_only_def hookEvents_def)

lemma subseq_tl: "subseq (tl ys) ys"
  by (cases ys) auto

lemma subseq_drop_Suc: "subseq (drop (Suc n) xs) (drop n xs)"
  by (simp add: drop_Suc drop_tl subseq_tl)

lemma subseq_splice1: "subseq (splice1 xs i) xs"
proof -
  have "subseq (take n xs @ drop (n + 1) xs) (take n xs @ drop n xs)" for n
    by (rule list_emb_append_mono) (simp_all add: subseq_drop_Suc)
  then show ?thesis
    by (simp add: splice1_def Let_def)
qed

lemma hookEvents_set_instanceEvents:
  "hookEvents (set_instanceEvents r evs s) r' h =
     (if r' = r then map_of evs h else hookEvents s r' h)"
  by (simp add: hookEvents_def set_instanceEvents_def)

lemma off_removes_only: "removes_only s (state_of (off r h cb s))"
proof (cases "hookEvents s r h")
  case None
  then show ?thesis by (simp add: off_def removes_only_refl split: option.splits)
next
  case (Some evs)
  show ?thesis
  proof (cases "find (\<lambda>event. callback event = cb) evs")
    case None
    with Some show ?thesis by (simp add: off_def removes_only_refl)
  next
    case (Some ev)
    with \<open>hookEvents s r h = Some evs\<close> show ?thesis
      by (simp add: off_def removes_only_def hookEvents_set_instanceEvents update_conv'
          subseq_splice1)
        (simp add: hookEvents_def set_instanceEvents_def)
  qed
qed

lemma apply_callback_removes_only:
  "removes_only s (state_of (apply_callback st cb c a s))"
proof (induction cb arbitrary: st s)
  case (OneTimeCallback i h cb)
  let ?s1 = "record_call st (OneTimeCallback i h cb) c a s"
  have s1: "removes_only s ?s1"
    by (rule removes_only_emitters) (simp add: record_call_def)
  have inner: "removes_only ?s1 (state_of (apply_callback Wrapper cb c a ?s1))"
    by (rule OneTimeCallback.IH)
  show ?case
  proof (cases "apply_callback Wrapper cb c a ?s1")
    case (Throw e s')
    with s1 inner show ?thesis by (auto intro: removes_only_trans)
  next
    case (Return u s')
    with s1 inner have s': "removes_only s s'" by (auto intro: removes_only_trans)
    show ?thesis
    proof (cases c)
      case ClassCtor
      with Return s' show ?thesis by simp
    next
      case (Emitter r)
      have "removes_only s' (state_of (off r h (OneTimeCallback i h cb) s'))"
        by (rule off_removes_only)
      with s' have "removes_only s (state_of (off r h (OneTimeCallback i h cb) s'))"
        by (rule removes_only_trans)
      with Return Emitter show ?thesis
        by (simp add: state_of_returning)
    qed
  qed
qed (auto simp: removes_only_refl intro!: removes_only_emitters simp: assign_all_def record_call_def)

lemma dispatch_removes_only: "removes_only s (state_of (dispatch cb c p s))"
proof (cases "falsy cb")
  case True
  then show ?thesis by (simp add: dispatch_def removes_only_refl)
next
  case False
  have "removes_only s (snd (spread p s))"
    by (rule removes_only_emitters) (simp add: spread_def)
  with False show ?thesis
    by (auto simp: dispatch_def split: prod.splits
        intro: removes_only_trans apply_callback_removes_only)
qed

lemma removes_only_length:
  assumes "removes_only s s'" and "hookEvents s r h = Some evs"
  obtains evs' where "hookEvents s' r h = Some evs'" and "length evs' \<le> length evs"
proof -
  from assms(1) have "rel_option subseq (hookEvents s' r h) (hookEvents s r h)"
    unfolding removes_only_def by blast
  with assms(2) have "rel_option subseq (hookEvents s' r h) (Some evs)"
    by simp
  then obtain evs' where "hookEvents s' r h = Some evs'" and "subseq evs' evs"
    by (cases "hookEvents s' r h") auto
  with that show ?thesis
    by (auto dest: list_emb_length)
qed

subsection \<open>The dispatch loops\<close>

text \<open>
  \<open>length_read s w h\<close>: what \<open>w.instanceEvents[h].length\<close> counts as the bound of
  a loop, behind the test \<open>if (w.instanceEvents[h])\<close>: \<open>None\<close> when the test
  fails (no own property and nothing inherited), the length of the own array, or the
  turns that the \<open>length\<close> of the inherited value allows.
\<close>

definition length_read :: "state \<Rightarrow> ref \<Rightarrow> string \<Rightarrow> nat option" where
  "length_read s w h =
     (case hookEvents s w h of
        Some evs \<Rightarrow> Some (length evs)
      | None \<Rightarrow> (case inherited h of None \<Rightarrow> None | Some len \<Rightarrow> Some (turns len)))"

text \<open>
  A loop over one emitter's events of a hook whose bound is read once, before the loop:
  \<^verbatim>\<open>const len = this.instanceEvents[eventName].length;
  for (let e = 0; e < len; e++) {
    this.instanceEvents[eventName][e].callback.call(this, { ...params });
  }\<close>
  The array is read again at every turn; an index past its end gives \<open>undefined\<close>,
  and reading \<open>.callback\<close> of it is a TypeError.  So is the read when there is no
  own array: an inherited value has no elements, and \<open>undefined\<close> cannot be indexed.
\<close>

function call_each_cached ::
  "ctx \<Rightarrow> ref \<Rightarrow> string \<Rightarrow> addr \<Rightarrow> nat \<Rightarrow> nat \<Rightarrow> state \<Rightarrow> unit result" where
  "call_each_cached c owner h p len e s =
     (if e < len then
        (case hookEvents s owner h of
           None \<Rightarrow> Throw TypeError s
         | Some evs \<Rightarrow>
             if e < length evs then
               (case dispatch (callback (evs ! e)) c p s of
                  Throw err s' \<Rightarrow> Throw err s'
                | Return _ s' \<Rightarrow> call_each_cached c owner h p len (Suc e) s')
             else Throw TypeError s)
      else Return () s)"
  by pat_completeness auto
termination
  by (relation "measure (\<lambda>(c, owner, h, p, len, e, s). len - e)") auto

declare call_each_cached.simps [simp del]

text \<open>
  A loop whose bound is the length of the array at every turn, with
  (\<open>guard\<close>) or without the test \<open>if (!....callback) continue;\<close>:
  \<^verbatim>\<open>for (let e = 0; e < w.instanceEvents[eventName].length; e++) {
    if (!w.instanceEvents[eventName][e].callback) continue;
    w.instanceEvents[eventName][e].callback.call(w, { ...params });
  }\<close>
  With no own property \<open>eventName\<close>, the bound is the \<open>length\<close> of the
  inherited value, whose elements are \<open>undefined\<close> (and reading \<open>.length\<close>
  of \<open>undefined\<close> is a TypeError, when nothing is inherited either).
\<close>

function call_each_live ::
  "bool \<Rightarrow> ctx \<Rightarrow> ref \<Rightarrow> string \<Rightarrow> addr \<Rightarrow> nat \<Rightarrow> state \<Rightarrow> unit result" where
  "call_each_live guard c owner h p e s =
     (case hookEvents s owner h of
        None \<Rightarrow>
          (case inherited h of
             None \<Rightarrow> Throw TypeError s
           | Some len \<Rightarrow> if e < turns len then Throw TypeError s else Return () s)
      | Some evs \<Rightarrow>
          if e < length evs then
            (if guard \<and> falsy (callback (evs ! e))
             then call_each_live guard c owner h p (Suc e) s
             else (case dispatch (callback (evs ! e)) c p s of
                     Throw err s' \<Rightarrow> Throw err s'
                   | Return _ s' \<Rightarrow> call_each_live guard c owner h p (Suc e) s'))
          else Return () s)"
  by pat_completeness auto
termination
proof (relation "measure (\<lambda>(guard, c, owner, h, p, e, s).
          (case hookEvents s owner h of None \<Rightarrow> 0 | Some evs \<Rightarrow> length evs) - e)")
  fix guard :: bool and c owner h p e s evs u s'
  assume evs: "hookEvents s owner h = Some evs" and e: "e < length evs"
    and ret: "dispatch (callback (evs ! e)) c p s = Return u s'"
  have "removes_only s s'"
    using dispatch_removes_only [of s "callback (evs ! e)" c p] ret by simp
  then obtain evs' where "hookEvents s' owner h = Some evs'" and "length evs' \<le> length evs"
    using evs by (rule removes_only_length)
  with evs e
  show "((guard, c, owner, h, p, Suc e, s'), (guard, c, owner, h, p, e, s))
      \<in> measure (\<lambda>(guard, c, owner, h, p, e, s).
          (case hookEvents s owner h of None \<Rightarrow> 0 | Some evs \<Rightarrow> length evs) - e)"
    by simp
qed auto

declare call_each_live.simps [simp del]

lemma call_each_live_removes_only:
  "removes_only s (state_of (call_each_live guard c owner h p e s))"
proof (induction guard c owner h p e s rule: call_each_live.induct)
  case (1 guard c owner h p e s)
  show ?case
  proof (cases "hookEvents s owner h")
    case None
    then show ?thesis
      by (subst call_each_live.simps) (simp add: removes_only_refl split: option.splits)
  next
    case (Some evs)
    show ?thesis
    proof (cases "e < length evs")
      case False
      with Some show ?thesis
        by (subst call_each_live.simps) (simp add: removes_only_refl)
    next
      case True
      show ?thesis
      proof (cases "guard \<and> falsy (callback (evs ! e))")
        case skip: True
        with Some True "1.IH"(1) show ?thesis
          by (subst call_each_live.simps) simp
      next
        case call: False
        have d: "removes_only s (state_of (dispatch (callback (evs ! e)) c p s))"
          by (rule dispatch_removes_only)
        show ?thesis
        proof (cases "dispatch (callback (evs ! e)) c p s")
          case (Throw err s')
          with Some True call d show ?thesis
            by (subst call_each_live.simps) auto
        next
          case (Return u s')
          with Some True call "1.IH"(2)
          have "removes_only s' (state_of (call_each_live guard c owner h p (Suc e) s'))"
            by simp
          with d Return have
            "removes_only s (state_of (call_each_live guard c owner h p (Suc e) s'))"
            by (auto intro: removes_only_trans)
          with Some True call Return show ?thesis
            by (subst call_each_live.simps) auto
        qed
      qed
    qed
  qed
qed

text \<open>
  The loop over the wired emitters:
  \<^verbatim>\<open>for (let w = 0; w < this.wiredEmitters.length; w++) {
    if (!this.wiredEmitters[w].instanceEvents[eventName]) continue;
    for (...) { ... }
  }\<close>
\<close>

function wired_loop :: "bool \<Rightarrow> ref \<Rightarrow> string \<Rightarrow> addr \<Rightarrow> nat \<Rightarrow> state \<Rightarrow> unit result" where
  "wired_loop guard self h p w s =
     (if w < length (wiredEmitters (emitters s self)) then
        (case length_read s (wiredEmitters (emitters s self) ! w) h of
           None \<Rightarrow> wired_loop guard self h p (Suc w) s
         | Some n \<Rightarrow>
             (case call_each_live guard (Emitter (wiredEmitters (emitters s self) ! w))
                     (wiredEmitters (emitters s self) ! w) h p 0 s of
                Throw err s' \<Rightarrow> Throw err s'
              | Return _ s' \<Rightarrow> wired_loop guard self h p (Suc w) s'))
      else Return () s)"
  by pat_completeness auto
termination
proof (relation "measure (\<lambda>(guard, self, h, p, w, s).
          length (wiredEmitters (emitters s self)) - w)")
  fix guard :: bool and self h p w s u s'
  assume w: "w < length (wiredEmitters (emitters s self))"
    and ret: "call_each_live guard (Emitter (wiredEmitters (emitters s self) ! w))
                (wiredEmitters (emitters s self) ! w) h p 0 s = Return u s'"
  have "removes_only s s'"
    using call_each_live_removes_only
      [of s guard "Emitter (wiredEmitters (emitters s self) ! w)"
        "wiredEmitters (emitters s self) ! w" h p 0] ret
    by simp
  then have "wiredEmitters (emitters s' self) = wiredEmitters (emitters s self)"
    by (simp add: removes_only_def)
  with w show "((guard, self, h, p, Suc w, s'), (guard, self, h, p, w, s))
      \<in> measure (\<lambda>(guard, self, h, p, w, s). length (wiredEmitters (emitters s self)) - w)"
    by simp
qed auto

declare wired_loop.simps [simp del]

subsection \<open>\<open>fire\<close>\<close>

text \<open>
  The argument \<open>given\<close> for the parameter \<open>params\<close> is the address of the
  caller's object, or absent, and then the default \<open>{}\<close> is built on entry.
\<close>

definition default_params :: "addr option \<Rightarrow> state \<Rightarrow> addr \<times> state" where
  "default_params given s =
     (case given of
        Some p \<Rightarrow> (p, s)
      | None \<Rightarrow> (nextobj s, s\<lparr>objects := (objects s)(nextobj s := []), nextobj := Suc (nextobj s)\<rparr>))"

definition fire_from :: "ref \<Rightarrow> string \<Rightarrow> addr \<Rightarrow> state \<Rightarrow> ref result" where
  "fire_from self eventName p s =
     (case (case length_read s self eventName of
              None \<Rightarrow> Return () s
            | Some len \<Rightarrow> call_each_cached (Emitter self) self eventName p len 0 s) of
        Throw err s1 \<Rightarrow> Throw err s1
      | Return _ s1 \<Rightarrow>
          (case wired_loop True self eventName p 0 s1 of
             Throw err s2 \<Rightarrow> Throw err s2
           | Return _ s2 \<Rightarrow> Return self s2))"

definition fire :: "ref \<Rightarrow> string \<Rightarrow> addr option \<Rightarrow> state \<Rightarrow> ref result" where
  "fire self eventName given s =
     (case default_params given s of (p, s0) \<Rightarrow> fire_from self eventName p s0)"

subsection \<open>The static \<open>Fire\<close>, in its two variants\<close>

text \<open>
  First variant.  Both loops read the length at every turn, the callbacks of the target
  are called with \<open>this\<close> (the class, in a static method), and the loop over the
  wired emitters has no test for a missing callback.
\<close>

definition Fire_from :: "string \<Rightarrow> ref \<Rightarrow> addr \<Rightarrow> state \<Rightarrow> unit result" where
  "Fire_from eventName target p s =
     (case (case length_read s target eventName of
              None \<Rightarrow> Return () s
            | Some n \<Rightarrow> call_each_live False ClassCtor target eventName p 0 s) of
        Throw err s1 \<Rightarrow> Throw err s1
      | Return _ s1 \<Rightarrow> wired_loop False target eventName p 0 s1)"

definition Fire :: "string \<Rightarrow> ref \<Rightarrow> addr option \<Rightarrow> state \<Rightarrow> unit result" where
  "Fire eventName target given s =
     (case default_params given s of (p, s0) \<Rightarrow> Fire_from eventName target p s0)"

text \<open>
  Second variant.  The bounds are read once; the bound of the loop over the wired
  emitters is \<open>target._instanceEvents[eventName].length\<close>, read without a test, and
  \<open>target.wiredEmitters[w]\<close> is \<open>undefined\<close> past the end of the array.
\<close>

function Fire_v2_wired ::
  "ref \<Rightarrow> string \<Rightarrow> addr \<Rightarrow> nat \<Rightarrow> nat \<Rightarrow> state \<Rightarrow> unit result" where
  "Fire_v2_wired target h p wiredLen w s =
     (if w < wiredLen then
        (if w < length (wiredEmitters (emitters s target)) then
           (case length_read s (wiredEmitters (emitters s target) ! w) h of
              None \<Rightarrow> Fire_v2_wired target h p wiredLen (Suc w) s
            | Some wiredEventsLen \<Rightarrow>
                (case call_each_cached (Emitter (wiredEmitters (emitters s target) ! w))
                        (wiredEmitters (emitters s target) ! w) h p wiredEventsLen 0 s of
                   Throw err s' \<Rightarrow> Throw err s'
                 | Return _ s' \<Rightarrow> Fire_v2_wired target h p wiredLen (Suc w) s'))
         else Throw TypeError s)
      else Return () s)"
  by pat_completeness auto
termination
  by (relation "measure (\<lambda>(target, h, p, wiredLen, w, s). wiredLen - w)") auto

declare Fire_v2_wired.simps [simp del]

definition Fire_v2_from :: "string \<Rightarrow> ref \<Rightarrow> addr \<Rightarrow> state \<Rightarrow> unit result" where
  "Fire_v2_from eventName target p s =
     (case (case length_read s target eventName of
              None \<Rightarrow> Return () s
            | Some targetLen \<Rightarrow> call_each_cached ClassCtor target eventName p targetLen 0 s) of
        Throw err s1 \<Rightarrow> Throw err s1
      | Return _ s1 \<Rightarrow>
          (case length_read s1 target eventName of
             None \<Rightarrow> Throw TypeError s1
           | Some wiredLen \<Rightarrow> Fire_v2_wired target eventName p wiredLen 0 s1))"

definition Fire_v2 :: "string \<Rightarrow> ref \<Rightarrow> addr option \<Rightarrow> state \<Rightarrow> unit result" where
  "Fire_v2 eventName target given s =
     (case default_params given s of (p, s0) \<Rightarrow> Fire_v2_from eventName target p s0)"

subsection \<open>The constructor and the getter \<open>events\<close>\<close>

text \<open>
  The loops of the constructor replay the class events with \<open>this.on\<close>:
  \<^verbatim>\<open>for (const [hook, events] of Object.entries(this.classEvents)) {
    const len = events.length;
    for (let e = 0; e < len; e++) { this.on(hook, events[e].callback); }
  }\<close>
  They run over arrays that \<open>on\<close> does not touch, so they are recursions over
  the lists; what \<open>on\<close> throws leaves the loops and the constructor.
\<close>

fun replay :: "ref \<Rightarrow> string \<Rightarrow> event list \<Rightarrow> state \<Rightarrow> unit result" where
  "replay self hook [] s = Return () s"
| "replay self hook (ev # evs) s =
     (case on self hook (callback ev) s of
        Throw err s' \<Rightarrow> Throw err s'
      | Return _ s' \<Rightarrow> replay self hook evs s')"

fun replay_all :: "ref \<Rightarrow> Events \<Rightarrow> state \<Rightarrow> unit result" where
  "replay_all self [] s = Return () s"
| "replay_all self ((hook, evs) # ce) s =
     (case replay self hook evs s of
        Throw err s' \<Rightarrow> Throw err s'
      | Return _ s' \<Rightarrow> replay_all self ce s')"

text \<open>
  \<open>this.instanceEvents ??= {}\<close> and \<open>this.classEvents ??= {}\<close> read through the
  prototype chain: \<open>protoInstanceEvents\<close> and \<open>protoClassEvents\<close> are what the
  prototype holds under these names, if anything (the decorators write
  \<open>classEvents\<close> there).
\<close>

definition "constructor" ::
  "ref \<Rightarrow> Events option \<Rightarrow> Events option \<Rightarrow> state \<Rightarrow> unit result" where
  "constructor self protoInstanceEvents protoClassEvents s =
     (let s0 = s\<lparr>emitters := (emitters s)
                 (self := \<lparr>instanceEvents = (case protoInstanceEvents of None \<Rightarrow> [] | Some evs \<Rightarrow> evs),
                           classEvents = (case protoClassEvents of None \<Rightarrow> [] | Some evs \<Rightarrow> evs),
                           wiredEmitters = []\<rparr>)\<rparr>
      in replay_all self (classEvents (emitters s0 self)) s0)"

text \<open>\<open>{ ...this.instanceEvents, ...this.classEvents }\<close>: a later property wins.\<close>

definition spread_into :: "Events \<Rightarrow> Events \<Rightarrow> Events" where
  "spread_into src tgt = fold (\<lambda>(k, v). set_prop k v) src tgt"

definition events :: "emitter \<Rightarrow> Events" where
  "events e = spread_into (classEvents e) (spread_into (instanceEvents e) [])"

subsection \<open>Fixtures\<close>

text \<open>
  A store in which no emitter has an event, a class event or a wired emitter (each
  emitter as \<open>new EventEmitter()\<close> leaves it when no decorator was used), and
  the observation of whether a call threw.
\<close>

definition init :: state where
  "init = \<lparr>emitters = (\<lambda>_. \<lparr>instanceEvents = [], classEvents = [], wiredEmitters = []\<rparr>),
           objects = (\<lambda>_. []), nextobj = 0, nextfn = 0, calls = []\<rparr>"

fun thrown :: "'a result \<Rightarrow> error option" where
  "thrown (Return _ _) = None"
| "thrown (Throw err _) = Some err"

text \<open>How often the function \<open>f\<close> was called, by whatever caller.\<close>

definition times_called :: "callback \<Rightarrow> state \<Rightarrow> nat" where
  "times_called f s = length (filter (\<lambda>c. callee c = f) (calls s))"


text \<open>Emitter \<open>0\<close> after \<open>on('x', f1)\<close>.\<close>

definition one_listener :: state where
  "one_listener = state_of (on 0 ''x'' (Fn 1 []) init)"

text \<open>Emitter \<open>0\<close> after \<open>once('x', f1)\<close>.\<close>

definition one_once :: state where
  "one_once = state_of (once 0 ''x'' (Fn 1 []) init)"

text \<open>
  Emitter \<open>0\<close> after \<open>once('x', f1)\<close>, \<open>once('x', f2)\<close>, \<open>once('x', f3)\<close> and
  \<open>once('x', f4)\<close>; and the same with emitter \<open>1\<close> wired to it
  (\<open>e1.wire(e0)\<close>).
\<close>

definition four_once :: state where
  "four_once =
     state_of (once 0 ''x'' (Fn 4 [])
       (state_of (once 0 ''x'' (Fn 3 [])
         (state_of (once 0 ''x'' (Fn 2 [])
           (state_of (once 0 ''x'' (Fn 1 []) init)))))))"

definition four_once_wired :: state where
  "four_once_wired = snd (wire 1 0 four_once)"

text \<open>
  The decorator \<open>@On('x')\<close> on a method \<open>f1\<close> of a class calls
  \<open>EventEmitter.On('x', f1, prototype, true)\<close>; the prototype is object \<open>9\<close>.
  Emitter \<open>0\<close> is then built by \<open>new\<close>, and \<open>on('x', f2)\<close> is called on
  it.
\<close>

definition decorated :: state where
  "decorated =
     (let s1 = state_of (On ''x'' (Fn 1 []) 9 True init)
      in state_of (on 0 ''x'' (Fn 2 [])
           (state_of (constructor 0 None (Some (classEvents (emitters s1 9))) s1))))"

text \<open>An emitter with the hook \<open>x\<close> in both collections.\<close>

definition collision :: emitter where
  "collision =
     \<lparr>instanceEvents = [(''x'', [Event ''x'' (Fn 1 []) 0 [], Event ''x'' (Fn 2 []) 0 []])],
      classEvents = [(''x'', [Event ''x'' (Fn 1 []) 9 []])],
      wiredEmitters = []\<rparr>"

text \<open>
  Emitter \<open>0\<close> with two listeners for \<open>x\<close> that each assign to the property
  \<open>k\<close> of their argument; object \<open>0\<close> is \<open>{ k: 0 }\<close>.
\<close>

definition writers :: state where
  "writers =
     state_of (on 0 ''x'' (Fn 2 [(''k'', Num 2)])
       (state_of (on 0 ''x'' (Fn 1 [(''k'', Num 1)])
         (init\<lparr>objects := (objects init)(0 := [(''k'', Num 0)]), nextobj := 1\<rparr>))))"

text \<open>
  Emitters \<open>0\<close>, \<open>2\<close> and \<open>3\<close> with one listener each for \<open>x\<close>, after
  \<open>e0.wire(e2)\<close> and \<open>e2.wire(e3)\<close>.
\<close>

definition relay :: state where
  "relay =
     state_of (on 3 ''x'' (Fn 12 [])
       (state_of (on 2 ''x'' (Fn 11 [])
         (state_of (on 0 ''x'' (Fn 10 [])
           (snd (wire 2 3 (snd (wire 0 2 init)))))))))"

text \<open>
  Emitter \<open>0\<close> after \<open>on('x', f1)\<close> and \<open>on('x', f2)\<close>, where \<open>f1\<close>
  throws.
\<close>

definition throwing_listener :: state where
  "throwing_listener =
     state_of (on 0 ''x'' (Fn 2 []) (state_of (on 0 ''x'' (Throwing 1 []) init)))"

text \<open>Emitter \<open>0\<close> after \<open>once('x', f1)\<close> and \<open>on('x', f2)\<close>.\<close>

definition once_then_on :: state where
  "once_then_on = state_of (on 0 ''x'' (Fn 2 []) (state_of (once 0 ''x'' (Fn 1 []) init)))"

text \<open>
  Emitter \<open>0\<close> after \<open>once('x', f1)\<close>, \<open>on('x', f2)\<close> and \<open>on('x', f3)\<close>, and
  \<open>e1.wire(e0)\<close>.
\<close>

definition once_on_on_wired :: state where
  "once_on_on_wired =
     snd (wire 1 0
       (state_of (on 0 ''x'' (Fn 3 [])
         (state_of (on 0 ''x'' (Fn 2 [])
           (state_of (once 0 ''x'' (Fn 1 []) init)))))))"

text \<open>
  Emitter \<open>0\<close> after \<open>on('x', f1)\<close>, \<open>on('x', null)\<close> and \<open>on('x', f2)\<close>, and
  \<open>e4.wire(e0)\<close>.
\<close>

definition null_listener :: state where
  "null_listener =
     snd (wire 4 0
       (state_of (on 0 ''x'' (Fn 2 [])
         (state_of (on 0 ''x'' Null
           (state_of (on 0 ''x'' (Fn 1 []) init)))))))"

subsection \<open>What a call leaves in the record\<close>

text \<open>
  \<open>invoked cb\<close>: the functions that run when \<open>cb\<close> is called, outermost first (a
  closure of \<open>Once\<close>, then what it wraps); nothing for \<open>undefined\<close> and
  \<open>null\<close>.  \<open>entries st cb c a ob\<close>: the records of these calls, made from the
  site \<open>st\<close> with \<open>this = c\<close> and the argument \<open>a\<close>, whose properties are
  \<open>ob\<close>.
\<close>

fun invoked :: "callback \<Rightarrow> callback list" where
  "invoked Undefined = []"
| "invoked Null = []"
| "invoked (Fn i ws) = [Fn i ws]"
| "invoked (Throwing i ws) = [Throwing i ws]"
| "invoked (OneTimeCallback i h cb) = OneTimeCallback i h cb # invoked cb"

fun entries :: "site \<Rightarrow> callback \<Rightarrow> ctx \<Rightarrow> addr \<Rightarrow> obj \<Rightarrow> call list" where
  "entries st Undefined c a ob = []"
| "entries st Null c a ob = []"
| "entries st (Fn i ws) c a ob = [\<lparr>site = st, callee = Fn i ws, this = c, arg = a, seen = ob\<rparr>]"
| "entries st (Throwing i ws) c a ob =
     [\<lparr>site = st, callee = Throwing i ws, this = c, arg = a, seen = ob\<rparr>]"
| "entries st (OneTimeCallback i h cb) c a ob =
     \<lparr>site = st, callee = OneTimeCallback i h cb, this = c, arg = a, seen = ob\<rparr> #
     entries Wrapper cb c a ob"

text \<open>
  \<open>fresh_copies p s s'\<close>: from \<open>s\<close> (in which the object \<open>p\<close> exists) to
  \<open>s'\<close>, no object of \<open>s\<close> was written, and every call made in between received
  an object built in between, which held the properties of \<open>p\<close> when the call
  began; no two calls made by a dispatch loop received the same object.
\<close>

definition fresh_copies :: "addr \<Rightarrow> state \<Rightarrow> state \<Rightarrow> bool" where
  "fresh_copies p s s' \<longleftrightarrow>
     (p < nextobj s \<longrightarrow>
        nextobj s \<le> nextobj s' \<and>
        (\<forall>a<nextobj s. objects s' a = objects s a) \<and>
        (\<exists>new. calls s' = calls s @ new \<and>
           (\<forall>c\<in>set new. seen c = objects s p \<and> nextobj s \<le> arg c \<and> arg c < nextobj s') \<and>
           distinct (map arg (filter (\<lambda>c. site c = Dispatch) new))))"

text \<open>
  \<open>callbacks_of s w h\<close>: the callbacks of the events that emitter \<open>w\<close> holds for the
  hook \<open>h\<close>, in the order of the array.  \<open>listeners\<close> pairs them with the value
  \<open>this\<close> takes when \<open>fire\<close> calls them.  \<open>audience s self h\<close>: the listeners
  of \<open>self\<close>, then those of each element of \<open>self.wiredEmitters\<close>, in the order of
  that array (an emitter that stands there twice is listed twice).
\<close>

definition callbacks_of :: "state \<Rightarrow> ref \<Rightarrow> string \<Rightarrow> callback list" where
  "callbacks_of s w h = (case hookEvents s w h of None \<Rightarrow> [] | Some evs \<Rightarrow> map callback evs)"

definition listeners :: "state \<Rightarrow> ref \<Rightarrow> string \<Rightarrow> (ctx \<times> callback) list" where
  "listeners s w h = map (Pair (Emitter w)) (callbacks_of s w h)"

definition audience :: "state \<Rightarrow> ref \<Rightarrow> string \<Rightarrow> (ctx \<times> callback) list" where
  "audience s self h =
     listeners s self h @ concat (map (\<lambda>w. listeners s w h) (wiredEmitters (emitters s self)))"

text \<open>
  \<open>calls_of ds\<close>: the calls that happen when the listeners \<open>ds\<close> are called one
  after the other, as pairs of \<open>this\<close> and the function called.
  \<open>dispatched s s' ds\<close>: the calls recorded from \<open>s\<close> to \<open>s'\<close> are those of the
  listeners \<open>ds\<close>.
\<close>

definition calls_of :: "(ctx \<times> callback) list \<Rightarrow> (ctx \<times> callback) list" where
  "calls_of ds = concat (map (\<lambda>(c, cb). map (Pair c) (invoked cb)) ds)"

definition dispatched :: "state \<Rightarrow> state \<Rightarrow> (ctx \<times> callback) list \<Rightarrow> bool" where
  "dispatched s s' ds \<longleftrightarrow>
     (\<exists>new. calls s' = calls s @ new \<and> map (\<lambda>x. (this x, callee x)) new = calls_of ds)"

text \<open>
  A callback that is a function of the user and returns: not a closure of \<open>Once\<close>,
  not missing, not a function that throws (and, as every user function of the model,
  not one that calls back into an emitter).
\<close>

fun user_function :: "callback \<Rightarrow> bool" where
  "user_function (Fn i ws) = True"
| "user_function cb = False"

text \<open>\<open>made s s'\<close>: the calls recorded in \<open>s'\<close> after those of \<open>s\<close>.\<close>

definition made :: "state \<Rightarrow> state \<Rightarrow> call list" where
  "made s s' = drop (length (calls s)) (calls s')"

text \<open>
  \<open>unlisted_throws s A h\<close>: \<open>A.fire(h)\<close> comes to an emitter, \<open>A\<close> itself or
  one of \<open>A.wiredEmitters\<close>, that has no list for \<open>h\<close>, while \<open>h\<close> is a
  name at which the loop over the events of such an emitter throws
  (\<open>throwing_hook\<close>).
\<close>

definition unlisted_throws :: "state \<Rightarrow> ref \<Rightarrow> string \<Rightarrow> bool" where
  "unlisted_throws s A h \<longleftrightarrow>
     throwing_hook h \<and>
     (\<exists>w\<in>set (A # wiredEmitters (emitters s A)). hookEvents s w h = None)"

section \<open>Properties\<close>

subsection \<open>\<open>off\<close>\<close>

lemma indexOf_first:
  "x \<notin> set ys \<Longrightarrow> indexOf (ys @ x # zs) x = int (length ys)"
  by (induction ys) (auto simp: Let_def)

lemma splice1_at: "splice1 (ys @ x # zs) (int (length ys)) = ys @ zs"
  by (simp add: splice1_def)

lemma find_first:
  "P x \<Longrightarrow> \<forall>y\<in>set ys. \<not> P y \<Longrightarrow> find P (ys @ x # zs) = Some x"
  by (induction ys) auto

lemma off_found:
  assumes "hookEvents s e H = Some (ys @ x # zs)" and "callback x = C"
    and "\<forall>y\<in>set ys. callback y \<noteq> C"
  shows "off e H C s =
     Return e (set_instanceEvents e (AList.update H (ys @ zs) (instanceEvents (emitters s e))) s)"
proof -
  have f: "find (\<lambda>event. callback event = C) (ys @ x # zs) = Some x"
    using assms(2,3) by (intro find_first) auto
  have "x \<notin> set ys" using assms(2,3) by auto
  then have "splice1 (ys @ x # zs) (indexOf (ys @ x # zs) x) = ys @ zs"
    by (simp add: indexOf_first splice1_at)
  with assms(1) f show ?thesis
    by (simp add: off_def)
qed

lemma off_absent:
  assumes "hookEvents s e H = Some evs" and "\<forall>y\<in>set evs. callback y \<noteq> C"
  shows "off e H C s = Return e s"
proof -
  have "find (\<lambda>event. callback event = C) evs = None"
    using assms(2) by (simp add: find_None_iff)
  with assms(1) show ?thesis by (simp add: off_def)
qed

lemma off_unregistered:
  "hookEvents s e H = None \<Longrightarrow>
     off e H C s = (if inherited H = None then Return e s else Throw TypeError s)"
  by (simp add: off_def split: option.splits)

lemma off_value: "off e H C s = Return x s' \<Longrightarrow> x = e"
  by (auto simp: off_def split: option.splits)

lemma off_set_classEvents:
  "state_of (off e H C (set_classEvents r ce s)) = set_classEvents r ce (state_of (off e H C s))"
  "thrown (off e H C (set_classEvents r ce s)) = thrown (off e H C s)"
  by (cases "emitters s r";
      auto simp: off_def hookEvents_def set_classEvents_def set_instanceEvents_def fun_upd_twist
        split: option.splits)+

lemma off_classEvents:
  "classEvents (emitters (state_of (off e H C s)) r) = classEvents (emitters s r)"
  using off_removes_only [of s e H C] by (simp add: removes_only_def)

lemma set_instanceEvents_frame:
  "hookEvents (set_instanceEvents e (AList.update H xs (instanceEvents (emitters s e))) s) r h =
     (if r = e \<and> h = H then Some xs else hookEvents s r h)"
  "wiredEmitters (emitters (set_instanceEvents e evs s) r) = wiredEmitters (emitters s r)"
  "classEvents (emitters (set_instanceEvents e evs s) r) = classEvents (emitters s r)"
  "r \<noteq> e \<Longrightarrow> emitters (set_instanceEvents e evs s) r = emitters s r"
  "calls (set_instanceEvents e evs s) = calls s"
  "objects (set_instanceEvents e evs s) = objects s"
  by (simp_all add: hookEvents_def set_instanceEvents_def update_conv')

lemma off_removes_registered:
  assumes "hookEvents s e H = Some evs" and "C \<in> callback ` set evs"
  shows "\<exists>ys x zs. evs = ys @ x # zs \<and> callback x = C \<and> C \<notin> callback ` set ys \<and>
           off e H C s =
             Return e (set_instanceEvents e
               (AList.update H (ys @ zs) (instanceEvents (emitters s e))) s)"
proof -
  from assms(2) have "\<exists>x\<in>set evs. callback x = C" by auto
  then have "\<exists>ys x zs. evs = ys @ x # zs \<and> callback x = C \<and> (\<forall>y\<in>set ys. callback y \<noteq> C)"
    by (rule split_list_first_prop)
  then obtain ys x zs where
    evs: "evs = ys @ x # zs" and x: "callback x = C" and ys: "\<forall>y\<in>set ys. callback y \<noteq> C"
    by blast
  have "off e H C s =
      Return e (set_instanceEvents e (AList.update H (ys @ zs) (instanceEvents (emitters s e))) s)"
    using assms(1) evs x ys by (intro off_found) auto
  moreover from ys have "C \<notin> callback ` set ys" by auto
  ultimately have "evs = ys @ x # zs \<and> callback x = C \<and> C \<notin> callback ` set ys \<and>
           off e H C s =
             Return e (set_instanceEvents e
               (AList.update H (ys @ zs) (instanceEvents (emitters s e))) s)"
    using evs x by simp
  then show ?thesis by (intro exI)
qed

text \<open>
  What \<open>off\<close> does.  When \<open>e\<close> has a list for \<open>H\<close> in which no event has
  the callback \<open>C\<close>, \<open>e.off(H, C)\<close> returns \<open>e\<close> and the state is
  unchanged.  When the list has such an event, it is \<open>ys @ x # zs\<close> with \<open>x\<close>
  the first event whose callback is \<open>C\<close>; the call returns \<open>e\<close>, and the only
  change is that the list of \<open>H\<close> on \<open>e\<close> becomes \<open>ys @ zs\<close>: the other
  hooks of \<open>e\<close>, its wired emitters, the other emitters, the recorded calls and the
  objects are as before.  When \<open>e\<close> has no list for \<open>H\<close>, the call returns
  \<open>e\<close> with the state unchanged if \<open>Object.prototype\<close> has no property
  \<open>H\<close>, and throws a TypeError, the state unchanged, if it has one.  The class
  events of every emitter are as before, and the outcome does not depend on them:
  \<open>off\<close> commutes with any assignment to \<open>classEvents\<close>.
\<close>

lemma off_removes_first_match:
  "(hookEvents s e H = None \<longrightarrow>
      off e H C s = (if inherited H = None then Return e s else Throw TypeError s)) \<and>
   (\<forall>evs. hookEvents s e H = Some evs \<and> C \<notin> callback ` set evs \<longrightarrow> off e H C s = Return e s) \<and>
   (\<forall>evs. hookEvents s e H = Some evs \<and> C \<in> callback ` set evs \<longrightarrow>
      (\<exists>ys x zs s'. evs = ys @ x # zs \<and> callback x = C \<and> C \<notin> callback ` set ys \<and>
         off e H C s = Return e s' \<and>
         hookEvents s' e H = Some (ys @ zs) \<and>
         (\<forall>h. h \<noteq> H \<longrightarrow> hookEvents s' e h = hookEvents s e h) \<and>
         (\<forall>r. r \<noteq> e \<longrightarrow> emitters s' r = emitters s r) \<and>
         wiredEmitters (emitters s' e) = wiredEmitters (emitters s e) \<and>
         calls s' = calls s \<and>
         objects s' = objects s)) \<and>
   (\<forall>r. classEvents (emitters (state_of (off e H C s)) r) = classEvents (emitters s r)) \<and>
   (\<forall>r ce. state_of (off e H C (set_classEvents r ce s)) =
              set_classEvents r ce (state_of (off e H C s)) \<and>
            thrown (off e H C (set_classEvents r ce s)) = thrown (off e H C s))"
proof (intro conjI allI impI)
  assume "hookEvents s e H = None"
  then show "off e H C s = (if inherited H = None then Return e s else Throw TypeError s)"
    by (rule off_unregistered)
next
  fix evs
  assume "hookEvents s e H = Some evs \<and> C \<notin> callback ` set evs"
  then show "off e H C s = Return e s" by (intro off_absent [of s e H evs]) auto
next
  fix evs
  assume a: "hookEvents s e H = Some evs \<and> C \<in> callback ` set evs"
  then obtain ys x zs where
    evs: "evs = ys @ x # zs" and x: "callback x = C" and ys: "C \<notin> callback ` set ys"
    and o: "off e H C s =
      Return e (set_instanceEvents e (AList.update H (ys @ zs) (instanceEvents (emitters s e))) s)"
    using off_removes_registered [of s e H evs C] by blast
  let ?s' = "set_instanceEvents e (AList.update H (ys @ zs) (instanceEvents (emitters s e))) s"
  have "evs = ys @ x # zs \<and> callback x = C \<and> C \<notin> callback ` set ys \<and>
         off e H C s = Return e ?s' \<and>
         hookEvents ?s' e H = Some (ys @ zs) \<and>
         (\<forall>h. h \<noteq> H \<longrightarrow> hookEvents ?s' e h = hookEvents s e h) \<and>
         (\<forall>r. r \<noteq> e \<longrightarrow> emitters ?s' r = emitters s r) \<and>
         wiredEmitters (emitters ?s' e) = wiredEmitters (emitters s e) \<and>
         calls ?s' = calls s \<and>
         objects ?s' = objects s"
    using evs x ys o by (simp add: set_instanceEvents_frame)
  then show "\<exists>ys x zs s'. evs = ys @ x # zs \<and> callback x = C \<and> C \<notin> callback ` set ys \<and>
         off e H C s = Return e s' \<and>
         hookEvents s' e H = Some (ys @ zs) \<and>
         (\<forall>h. h \<noteq> H \<longrightarrow> hookEvents s' e h = hookEvents s e h) \<and>
         (\<forall>r. r \<noteq> e \<longrightarrow> emitters s' r = emitters s r) \<and>
         wiredEmitters (emitters s' e) = wiredEmitters (emitters s e) \<and>
         calls s' = calls s \<and>
         objects s' = objects s"
    by blast
next
  fix r
  show "classEvents (emitters (state_of (off e H C s)) r) = classEvents (emitters s r)"
    by (rule off_classEvents)
next
  fix r ce
  show "state_of (off e H C (set_classEvents r ce s)) =
      set_classEvents r ce (state_of (off e H C s))"
    by (rule off_set_classEvents)
  show "thrown (off e H C (set_classEvents r ce s)) = thrown (off e H C s)"
    by (rule off_set_classEvents)
qed

text \<open>
  Claim C4, at a concrete input.  A new emitter has no list for any hook.  On it,
  \<open>e.off('y', f1)\<close> returns, as the test at the head of \<open>off\<close> intends for a
  hook without registrations; \<open>e.off('constructor', f1)\<close> throws a TypeError, and
  so does \<open>off\<close> at each of the other names that objects inherit: the test reads
  \<open>instanceEvents['constructor']\<close>, which is the function \<open>Object\<close>, lets it
  through, and the call of its \<open>find\<close> fails.
\<close>

theorem off_throws_at_inherited_hook:
  "hookEvents init 0 ''y'' = None \<and>
   thrown (off 0 ''y'' (Fn 1 []) init) = None \<and>
   hookEvents init 0 ''constructor'' = None \<and>
   thrown (off 0 ''constructor'' (Fn 1 []) init) = Some TypeError \<and>
   map (\<lambda>h. thrown (off 0 h (Fn 1 []) init)) (map fst object_prototype) =
     replicate 12 (Some TypeError)"
  by code_simp

subsection \<open>\<open>fire\<close> on a hook that nobody listens to\<close>

lemma wired_loop_Nil:
  "wiredEmitters (emitters s self) = [] \<Longrightarrow> wired_loop guard self h p w s = Return () s"
  by (subst wired_loop.simps) simp

lemma call_each_cached_unregistered:
  "hookEvents s owner h = None \<Longrightarrow>
     call_each_cached c owner h p len e s = (if e < len then Throw TypeError s else Return () s)"
  by (subst call_each_cached.simps) simp

lemma fire_from_unregistered:
  assumes "wiredEmitters (emitters s e) = []" and "hookEvents s e H = None"
  shows "fire_from e H p s = (if throwing_hook H then Throw TypeError s else Return e s)"
  using assms
  by (cases "inherited H")
    (simp_all add: fire_from_def length_read_def throwing_hook_def wired_loop_Nil
      call_each_cached_unregistered)

text \<open>
  \<open>fire\<close> on a hook that nobody listens to.  Let \<open>e\<close> have no wired emitter
  and no list for the hook \<open>H\<close>.  When \<open>H\<close> is not the name of a function with
  a parameter that \<open>Object.prototype\<close> defines, \<open>e.fire(H, params)\<close> returns
  \<open>e\<close> and the state is unchanged; with \<open>params\<close> left out, \<open>e.fire(H)\<close>
  returns \<open>e\<close>, no emitter has changed and no callback was called (the default
  object \<open>{}\<close> is the only thing built).  When \<open>H\<close> is such a name
  (\<open>constructor\<close>, \<open>hasOwnProperty\<close>, ...), the call throws a TypeError
  instead; still no emitter has changed and no callback was called.
\<close>

lemma fire_unregistered_no_effect:
  assumes "wiredEmitters (emitters s e) = []" and "hookEvents s e H = None"
  shows "(\<not> throwing_hook H \<longrightarrow>
            fire e H (Some p) s = Return e s \<and>
            (\<exists>s'. fire e H None s = Return e s' \<and> emitters s' = emitters s \<and> calls s' = calls s)) \<and>
         (throwing_hook H \<longrightarrow>
            fire e H (Some p) s = Throw TypeError s \<and>
            (\<exists>s'. fire e H None s = Throw TypeError s' \<and> emitters s' = emitters s \<and>
                  calls s' = calls s))"
proof -
  let ?s0 = "s\<lparr>objects := (objects s)(nextobj s := []), nextobj := Suc (nextobj s)\<rparr>"
  have some: "fire e H (Some p) s = (if throwing_hook H then Throw TypeError s else Return e s)"
    using fire_from_unregistered [OF assms] by (simp add: fire_def default_params_def)
  have "wiredEmitters (emitters ?s0 e) = []" and "hookEvents ?s0 e H = None"
    using assms by (simp_all add: hookEvents_def)
  then have none: "fire e H None s = (if throwing_hook H then Throw TypeError ?s0 else Return e ?s0)"
    using fire_from_unregistered [of ?s0 e H "nextobj s"] by (simp add: fire_def default_params_def)
  have "emitters ?s0 = emitters s \<and> calls ?s0 = calls s" by simp
  with some none show ?thesis by auto
qed

text \<open>
  Claim C9, at a concrete input.  A new emitter has no wired emitter and no list for
  any hook.  On it, \<open>e.fire('y')\<close> returns, as the test
  \<open>if (this.instanceEvents[eventName])\<close> intends for a hook without registrations;
  \<open>e.fire('constructor')\<close> throws a TypeError, having called nothing: the test
  reads the function \<open>Object\<close>, whose \<open>length\<close> is 1, and the loop reads
  \<open>.callback\<close> of its element \<open>0\<close>, which is \<open>undefined\<close>.  The same
  happens at every inherited name whose value is a function with a parameter.
\<close>

theorem fire_throws_at_inherited_hook:
  "wiredEmitters (emitters init 0) = [] \<and>
   hookEvents init 0 ''y'' = None \<and>
   thrown (fire 0 ''y'' None init) = None \<and>
   hookEvents init 0 ''constructor'' = None \<and>
   thrown (fire 0 ''constructor'' None init) = Some TypeError \<and>
   calls (state_of (fire 0 ''constructor'' None init)) = [] \<and>
   filter (\<lambda>h. thrown (fire 0 h None init) \<noteq> None) (map fst object_prototype) =
     [''constructor'', ''hasOwnProperty'', ''isPrototypeOf'', ''propertyIsEnumerable'',
      ''__defineGetter__'', ''__defineSetter__'', ''__lookupGetter__'', ''__lookupSetter__'']"
  by code_simp

subsection \<open>The getter \<open>events\<close>\<close>

lemma map_of_insert_key:
  "map_of kvs k = None \<Longrightarrow> map_of (insert_key k v kvs) = (map_of kvs)(k \<mapsto> v)"
  by (induction kvs) (auto simp: fun_eq_iff split: option.splits if_splits)

lemma map_of_set_prop: "map_of (set_prop k v kvs) = (map_of kvs)(k \<mapsto> v)"
  by (simp add: set_prop_def map_of_insert_key update_conv' split: option.splits)

lemma map_of_spread_into:
  "distinct (map fst src) \<Longrightarrow> map_of (spread_into src tgt) = map_of tgt ++ map_of src"
proof (induction src arbitrary: tgt)
  case Nil
  then show ?case by (simp add: spread_into_def)
next
  case (Cons kv src)
  obtain k v where kv: "kv = (k, v)" by (cases kv)
  from Cons.prems kv have k: "k \<notin> dom (map_of src)" and d: "distinct (map fst src)"
    by (auto simp: dom_map_of_conv_image_fst)
  have "map_of (spread_into (kv # src) tgt) = map_of (spread_into src (set_prop k v tgt))"
    by (simp add: spread_into_def kv)
  also have "\<dots> = (map_of tgt)(k \<mapsto> v) ++ map_of src"
    by (simp only: Cons.IH [OF d] map_of_set_prop)
  also have "\<dots> = map_of tgt ++ map_of (kv # src)"
    using k by (auto simp: kv fun_eq_iff map_add_def split: option.splits)
  finally show ?case .
qed

text \<open>
  What the getter computes.  The object that \<open>events\<close> returns has every hook name
  of \<open>instanceEvents\<close> and of \<open>classEvents\<close>; on a hook name present in both,
  its list is the one of \<open>classEvents\<close> (the spread of \<open>classEvents\<close> comes
  last), and otherwise the one of the collection that has the name.  The hypotheses say
  that the two association lists stand for objects: no key twice.
\<close>

lemma events_lookup:
  assumes "distinct (map fst (instanceEvents e))" and "distinct (map fst (classEvents e))"
  shows "fst ` set (events e) = fst ` set (instanceEvents e) \<union> fst ` set (classEvents e) \<and>
         map_of (events e) h =
           (case map_of (classEvents e) h of
              Some evs \<Rightarrow> Some evs
            | None \<Rightarrow> map_of (instanceEvents e) h)"
proof -
  have m: "map_of (events e) = map_of (instanceEvents e) ++ map_of (classEvents e)"
    using assms by (simp add: events_def map_of_spread_into)
  have "dom (map_of (events e)) = dom (map_of (instanceEvents e)) \<union> dom (map_of (classEvents e))"
    by (auto simp: m)
  then have "fst ` set (events e) = fst ` set (instanceEvents e) \<union> fst ` set (classEvents e)"
    by (simp add: dom_map_of_conv_image_fst)
  moreover have "map_of (events e) h =
           (case map_of (classEvents e) h of
              Some evs \<Rightarrow> Some evs
            | None \<Rightarrow> map_of (instanceEvents e) h)"
    by (simp add: m map_add_def split: option.splits)
  ultimately show ?thesis by simp
qed

text \<open>
  Claim C1, at a concrete input.  The emitter \<open>0\<close> of \<open>decorated\<close> is an
  instance of a class with one method decorated \<open>@On('x')\<close>, after
  \<open>on('x', f2)\<close>.  The constructor has replayed the class event, so the emitter
  listens to \<open>x\<close> with \<open>f1\<close> and \<open>f2\<close>, and \<open>fire('x')\<close> calls both.  The
  getter \<open>events\<close>, documented to return all the events of the emitter, instance
  defined and class defined, returns under \<open>x\<close> the list of \<open>classEvents\<close>
  alone: the event of \<open>f2\<close>, defined on the instance, is not in the object returned,
  under any name.
\<close>

theorem events_drops_instance_events:
  "hookEvents decorated 0 ''x'' =
     Some [Event ''x'' (Fn 1 []) 0 [], Event ''x'' (Fn 2 []) 0 []] \<and>
   classEvents (emitters decorated 0) = [(''x'', [Event ''x'' (Fn 1 []) 9 []])] \<and>
   map callee (calls (state_of (fire 0 ''x'' None decorated))) = [Fn 1 [], Fn 2 []] \<and>
   events (emitters decorated 0) = [(''x'', [Event ''x'' (Fn 1 []) 9 []])] \<and>
   map_of (events (emitters decorated 0)) ''x'' \<noteq> hookEvents decorated 0 ''x'' \<and>
   concat (map (\<lambda>kv. map callback (snd kv)) (events (emitters decorated 0))) = [Fn 1 []]"
  by code_simp

subsection \<open>The static \<open>Fire\<close> against \<open>fire\<close>\<close>

text \<open>
  Claim C2, at a concrete input.  With one listener \<open>f1\<close> for \<open>x\<close> on emitter
  \<open>0\<close>, \<open>e0.fire('x')\<close> calls \<open>f1\<close> with \<open>this = e0\<close> and returns.  The static
  \<open>EventEmitter.Fire('x', e0)\<close> calls \<open>f1\<close> with \<open>this\<close> the class, in both
  variants; the second variant then throws a TypeError (it walks
  \<open>target.wiredEmitters\<close> up to the number of the target's own events), and it
  throws as well on a hook without registrations.  With a listener registered by
  \<open>once\<close>, \<open>fire\<close> returns and the static \<open>Fire\<close> throws, since the class has no
  \<open>off\<close>.
\<close>

theorem Fire_differs_from_fire:
  "map this (calls (state_of (fire 0 ''x'' None one_listener))) = [Emitter 0] \<and>
   thrown (fire 0 ''x'' None one_listener) = None \<and>
   map this (calls (state_of (Fire ''x'' 0 None one_listener))) = [ClassCtor] \<and>
   thrown (Fire ''x'' 0 None one_listener) = None \<and>
   map this (calls (state_of (Fire_v2 ''x'' 0 None one_listener))) = [ClassCtor] \<and>
   thrown (Fire_v2 ''x'' 0 None one_listener) = Some TypeError \<and>
   thrown (fire 0 ''y'' None one_listener) = None \<and>
   thrown (Fire_v2 ''y'' 0 None one_listener) = Some TypeError \<and>
   thrown (fire 0 ''x'' None one_once) = None \<and>
   thrown (Fire ''x'' 0 None one_once) = Some TypeError"
  by code_simp

subsection \<open>\<open>once\<close> among other \<open>once\<close> listeners\<close>

text \<open>
  Claim C3, at a concrete input.  Emitter \<open>0\<close> has four listeners for \<open>x\<close>, each
  registered by \<open>once\<close>; the last is \<open>f4\<close>.  Each listener that runs removes its
  event from the array that the loop is walking, so the loop steps over the event that
  follows it.  The first \<open>e0.fire('x')\<close> calls \<open>f1\<close> and \<open>f3\<close> and throws a
  TypeError (the bound of the loop was read before the removals); the second calls
  \<open>f2\<close> and throws.  Fired through the wired emitter \<open>1\<close>, both calls return, with
  the same listeners called.  Either way \<open>f4\<close> has not been called after two fires,
  and its event is still registered.
\<close>

theorem once_listener_skipped:
  "map callee (filter (\<lambda>c. site c = Wrapper) (calls (state_of (fire 0 ''x'' None four_once)))) =
     [Fn 1 [], Fn 3 []] \<and>
   thrown (fire 0 ''x'' None four_once) = Some TypeError \<and>
   times_called (Fn 4 [])
     (state_of (fire 0 ''x'' None (state_of (fire 0 ''x'' None four_once)))) = 0 \<and>
   thrown (fire 1 ''x'' None four_once_wired) = None \<and>
   thrown (fire 1 ''x'' None (state_of (fire 1 ''x'' None four_once_wired))) = None \<and>
   times_called (Fn 4 [])
     (state_of (fire 1 ''x'' None (state_of (fire 1 ''x'' None four_once_wired)))) = 0 \<and>
   callbacks_of
     (state_of (fire 1 ''x'' None (state_of (fire 1 ''x'' None four_once_wired)))) 0 ''x'' =
     [OneTimeCallback 3 ''x'' (Fn 4 [])]"
  by code_simp

subsection \<open>The constructor\<close>

lemma on_eq:
  "on self h cb s =
     (case push_event (Event h cb self []) (instanceEvents (emitters s self)) of
        None \<Rightarrow> Throw TypeError s
      | Some evs \<Rightarrow> Return self (set_instanceEvents self evs s))"
  by (simp add: on_def On_def registerEvent_def split: option.splits)


lemma push_event_None:
  "push_event ev evs = None \<longleftrightarrow> map_of evs (name ev) = None \<and> inherited (name ev) \<noteq> None"
  by (auto simp: push_event_def split: option.splits)

lemma map_of_push_event:
  "push_event ev evs = Some evs' \<Longrightarrow>
     map_of evs' =
       (map_of evs)(name ev \<mapsto> (case map_of evs (name ev) of None \<Rightarrow> [] | Some xs \<Rightarrow> xs) @ [ev])"
  by (auto simp: push_event_def map_of_insert_key update_conv' split: option.splits)

lemma fst_set_insert_key: "fst ` set (insert_key k v kvs) = insert k (fst ` set kvs)"
proof (induction kvs)
  case Nil
  then show ?case by simp
next
  case (Cons kv kvs)
  obtain k' v' where kv: "kv = (k', v')" by (cases kv)
  show ?case
  proof (cases "array_index k")
    case None
    with Cons.IH show ?thesis by (auto simp: kv)
  next
    case n: (Some n)
    show ?thesis
    proof (cases "array_index k'")
      case None
      with n show ?thesis by (auto simp: kv)
    next
      case (Some n')
      with n Cons.IH show ?thesis by (cases "n' < n") (auto simp: kv)
    qed
  qed
qed

lemma distinct_insert_key:
  "k \<notin> fst ` set kvs \<Longrightarrow> distinct (map fst kvs) \<Longrightarrow> distinct (map fst (insert_key k v kvs))"
proof (induction kvs)
  case Nil
  then show ?case by simp
next
  case (Cons kv kvs)
  obtain k' v' where kv: "kv = (k', v')" by (cases kv)
  have keys: "fst ` set (insert_key k v kvs) = insert k (fst ` set kvs)"
    by (rule fst_set_insert_key)
  from Cons.prems kv have k: "k \<noteq> k'" "k \<notin> fst ` set kvs"
    and d: "k' \<notin> fst ` set kvs" "distinct (map fst kvs)"
    by auto
  from Cons.IH [OF k(2) d(2)] have IH: "distinct (map fst (insert_key k v kvs))" .
  have rec: "distinct (map fst ((k', v') # insert_key k v kvs))"
    using IH keys k d by auto
  have front: "distinct (map fst ((k, v) # (k', v') # kvs))"
    using k d by auto
  show ?case
  proof (cases "array_index k")
    case None
    with rec show ?thesis by (simp add: kv)
  next
    case n: (Some n)
    show ?thesis
    proof (cases "array_index k'")
      case None
      with n front show ?thesis by (simp add: kv)
    next
      case (Some n')
      with n rec front show ?thesis by (cases "n' < n") (simp_all add: kv)
    qed
  qed
qed

text \<open>
  \<open>registerEvent\<close> keeps an object an object, and never gives it an own property
  that \<open>Object.prototype\<close> has: the objects that \<open>On\<close> and \<open>Once\<close> build from
  \<open>{}\<close> have no key twice and no inherited name among their keys.
\<close>

lemma push_event_keys:
  assumes "push_event ev evs = Some evs'"
    and "distinct (map fst evs)" and "\<forall>k\<in>fst ` set evs. inherited k = None"
  shows "distinct (map fst evs') \<and> (\<forall>k\<in>fst ` set evs'. inherited k = None)"
proof (cases "map_of evs (name ev)")
  case None
  with assms(1) have i: "inherited (name ev) = None" and e: "evs' = insert_key (name ev) [ev] evs"
    by (auto simp: push_event_def split: option.splits)
  from None have "name ev \<notin> fst ` set evs"
    by (simp add: map_of_eq_None_iff)
  then have "distinct (map fst evs')"
    unfolding e using assms(2) by (rule distinct_insert_key)
  moreover have "\<forall>k\<in>fst ` set evs'. inherited k = None"
    unfolding e fst_set_insert_key using assms(3) i by simp
  ultimately show ?thesis by simp
next
  case (Some xs)
  with assms(1) have e: "evs' = AList.update (name ev) (xs @ [ev]) evs"
    by (simp add: push_event_def)
  from Some have "name ev \<in> fst ` set evs"
    by (auto dest: map_of_SomeD intro: rev_image_eqI)
  then have "set (map fst evs') = set (map fst evs)"
    unfolding e by (simp add: update_keys)
  then have "fst ` set evs' = fst ` set evs"
    by simp
  moreover have "distinct (map fst evs')"
    unfolding e using assms(2) by (rule distinct_update)
  ultimately show ?thesis using assms(3) by simp
qed

lemma on_throws_iff:
  "on self h cb s = Throw TypeError s \<longleftrightarrow> hookEvents s self h = None \<and> inherited h \<noteq> None"
  "thrown (on self h cb s) = None \<longleftrightarrow> hookEvents s self h \<noteq> None \<or> inherited h = None"
  using push_event_None [of "Event h cb self []" "instanceEvents (emitters s self)"]
  by (auto simp: on_eq hookEvents_def Event_def split: option.splits)


lemma hookEvents_on:
  assumes "thrown (on self h cb s) = None"
  shows "hookEvents (state_of (on self h cb s)) r h' =
     (if r = self \<and> h' = h
      then Some ((case hookEvents s self h of None \<Rightarrow> [] | Some xs \<Rightarrow> xs) @ [Event h cb self []])
      else hookEvents s r h')"
proof (cases "push_event (Event h cb self []) (instanceEvents (emitters s self))")
  case None
  with assms show ?thesis by (simp add: on_eq)
next
  case (Some evs)
  from map_of_push_event [OF Some] Some show ?thesis
    by (simp add: on_eq hookEvents_set_instanceEvents Event_def) (simp add: hookEvents_def)
qed

lemma on_frame:
  "classEvents (emitters (state_of (on self h cb s)) r) = classEvents (emitters s r)"
  "wiredEmitters (emitters (state_of (on self h cb s)) r) = wiredEmitters (emitters s r)"
  "r \<noteq> self \<Longrightarrow> emitters (state_of (on self h cb s)) r = emitters s r"
  "calls (state_of (on self h cb s)) = calls s"
  by (simp_all add: on_eq set_instanceEvents_def split: option.splits)

lemma replay_returns:
  assumes "inherited h = None"
  shows "\<exists>s'. replay self h evs s = Return () s' \<and>
     (\<forall>r. classEvents (emitters s' r) = classEvents (emitters s r) \<and>
          wiredEmitters (emitters s' r) = wiredEmitters (emitters s r) \<and>
          (r \<noteq> self \<longrightarrow> emitters s' r = emitters s r)) \<and>
     (\<forall>r h'. hookEvents s' r h' =
       (if r = self \<and> h' = h \<and> evs \<noteq> []
        then Some ((case hookEvents s self h of None \<Rightarrow> [] | Some xs \<Rightarrow> xs) @
                   map (\<lambda>ev. Event h (callback ev) self []) evs)
        else hookEvents s r h'))"
proof (induction evs arbitrary: s)
  case Nil
  then show ?case by simp
next
  case (Cons ev evs)
  have t: "thrown (on self h (callback ev) s) = None"
    using assms by (simp add: on_throws_iff)
  then obtain x s1 where o: "on self h (callback ev) s = Return x s1"
    by (cases "on self h (callback ev) s") simp_all
  have h1: "hookEvents s1 r h' =
     (if r = self \<and> h' = h
      then Some ((case hookEvents s self h of None \<Rightarrow> [] | Some xs \<Rightarrow> xs) @
                 [Event h (callback ev) self []])
      else hookEvents s r h')" for r h'
    using hookEvents_on [OF t, of r h'] o by simp
  have f1: "classEvents (emitters s1 r) = classEvents (emitters s r) \<and>
          wiredEmitters (emitters s1 r) = wiredEmitters (emitters s r) \<and>
          (r \<noteq> self \<longrightarrow> emitters s1 r = emitters s r)" for r
    using on_frame(1,2,3) [where self = self and h = h and cb = "callback ev" and s = s and r = r] o
    by simp
  from Cons.IH [of s1] obtain s' where
    r: "replay self h evs s1 = Return () s'"
    and f: "\<forall>r. classEvents (emitters s' r) = classEvents (emitters s1 r) \<and>
          wiredEmitters (emitters s' r) = wiredEmitters (emitters s1 r) \<and>
          (r \<noteq> self \<longrightarrow> emitters s' r = emitters s1 r)"
    and hh: "\<forall>r h'. hookEvents s' r h' =
       (if r = self \<and> h' = h \<and> evs \<noteq> []
        then Some ((case hookEvents s1 self h of None \<Rightarrow> [] | Some xs \<Rightarrow> xs) @
                   map (\<lambda>ev. Event h (callback ev) self []) evs)
        else hookEvents s1 r h')"
    by blast
  have "replay self h (ev # evs) s = Return () s'"
    using o r by simp
  moreover have "\<forall>r. classEvents (emitters s' r) = classEvents (emitters s r) \<and>
          wiredEmitters (emitters s' r) = wiredEmitters (emitters s r) \<and>
          (r \<noteq> self \<longrightarrow> emitters s' r = emitters s r)"
    using f f1 by simp
  moreover have "\<forall>r h'. hookEvents s' r h' =
       (if r = self \<and> h' = h \<and> ev # evs \<noteq> []
        then Some ((case hookEvents s self h of None \<Rightarrow> [] | Some xs \<Rightarrow> xs) @
                   map (\<lambda>ev. Event h (callback ev) self []) (ev # evs))
        else hookEvents s r h')"
    using hh h1 by simp
  ultimately show ?case by blast
qed

lemma replay_all_returns:
  assumes "distinct (map fst ce)" and "\<forall>k\<in>fst ` set ce. inherited k = None"
  shows "\<exists>s'. replay_all self ce s = Return () s' \<and>
     (\<forall>r. classEvents (emitters s' r) = classEvents (emitters s r) \<and>
          wiredEmitters (emitters s' r) = wiredEmitters (emitters s r) \<and>
          (r \<noteq> self \<longrightarrow> emitters s' r = emitters s r)) \<and>
     (\<forall>r h'. hookEvents s' r h' =
       (case map_of ce h' of
          Some evs \<Rightarrow>
            if r = self \<and> evs \<noteq> []
            then Some ((case hookEvents s self h' of None \<Rightarrow> [] | Some xs \<Rightarrow> xs) @
                       map (\<lambda>ev. Event h' (callback ev) self []) evs)
            else hookEvents s r h'
        | None \<Rightarrow> hookEvents s r h'))"
  using assms
proof (induction ce arbitrary: s)
  case Nil
  then show ?case by simp
next
  case (Cons kv ce)
  obtain k evs where kv: "kv = (k, evs)" by (cases kv)
  from Cons.prems kv have k: "map_of ce k = None" and d: "distinct (map fst ce)"
    and i: "inherited k = None" and rest: "\<forall>k\<in>fst ` set ce. inherited k = None"
    by (auto simp: map_of_eq_None_iff)
  from replay_returns [OF i, of self evs s] obtain s1 where
    r1: "replay self k evs s = Return () s1"
    and f1: "\<forall>r. classEvents (emitters s1 r) = classEvents (emitters s r) \<and>
          wiredEmitters (emitters s1 r) = wiredEmitters (emitters s r) \<and>
          (r \<noteq> self \<longrightarrow> emitters s1 r = emitters s r)"
    and h1: "\<forall>r h'. hookEvents s1 r h' =
       (if r = self \<and> h' = k \<and> evs \<noteq> []
        then Some ((case hookEvents s self k of None \<Rightarrow> [] | Some xs \<Rightarrow> xs) @
                   map (\<lambda>ev. Event k (callback ev) self []) evs)
        else hookEvents s r h')"
    by blast
  from Cons.IH [OF d rest, of s1] obtain s' where
    r: "replay_all self ce s1 = Return () s'"
    and f: "\<forall>r. classEvents (emitters s' r) = classEvents (emitters s1 r) \<and>
          wiredEmitters (emitters s' r) = wiredEmitters (emitters s1 r) \<and>
          (r \<noteq> self \<longrightarrow> emitters s' r = emitters s1 r)"
    and hh: "\<forall>r h'. hookEvents s' r h' =
       (case map_of ce h' of
          Some evs \<Rightarrow>
            if r = self \<and> evs \<noteq> []
            then Some ((case hookEvents s1 self h' of None \<Rightarrow> [] | Some xs \<Rightarrow> xs) @
                       map (\<lambda>ev. Event h' (callback ev) self []) evs)
            else hookEvents s1 r h'
        | None \<Rightarrow> hookEvents s1 r h')"
    by blast
  have "replay_all self (kv # ce) s = Return () s'"
    using r1 r by (simp add: kv)
  moreover have "\<forall>r. classEvents (emitters s' r) = classEvents (emitters s r) \<and>
          wiredEmitters (emitters s' r) = wiredEmitters (emitters s r) \<and>
          (r \<noteq> self \<longrightarrow> emitters s' r = emitters s r)"
    using f f1 by simp
  moreover have "\<forall>r h'. hookEvents s' r h' =
       (case map_of (kv # ce) h' of
          Some evs \<Rightarrow>
            if r = self \<and> evs \<noteq> []
            then Some ((case hookEvents s self h' of None \<Rightarrow> [] | Some xs \<Rightarrow> xs) @
                       map (\<lambda>ev. Event h' (callback ev) self []) evs)
            else hookEvents s r h'
        | None \<Rightarrow> hookEvents s r h')"
    using k by (auto simp: hh h1 kv split: option.splits)
  ultimately show ?case by blast
qed

lemma constructor_replay_all:
  "constructor self pin pcl s =
     replay_all self (case pcl of None \<Rightarrow> [] | Some evs \<Rightarrow> evs)
       (s\<lparr>emitters := (emitters s)
           (self := \<lparr>instanceEvents = (case pin of None \<Rightarrow> [] | Some evs \<Rightarrow> evs),
                     classEvents = (case pcl of None \<Rightarrow> [] | Some evs \<Rightarrow> evs),
                     wiredEmitters = []\<rparr>)\<rparr>)"
  by (simp add: constructor_def Let_def)

lemma off_removes_one:
  assumes "hookEvents s e H = Some evs" and "C \<in> callback ` set evs"
  shows "thrown (off e H C s) = None \<and>
         (\<exists>ys x zs. hookEvents s e H = Some (ys @ x # zs) \<and> callback x = C \<and>
           hookEvents (state_of (off e H C s)) e H = Some (ys @ zs))"
proof -
  from off_removes_registered [OF assms] obtain ys x zs where
    evs: "evs = ys @ x # zs" and x: "callback x = C"
    and o: "off e H C s =
      Return e (set_instanceEvents e (AList.update H (ys @ zs) (instanceEvents (emitters s e))) s)"
    by blast
  from o have "hookEvents (state_of (off e H C s)) e H = Some (ys @ zs)"
    by (simp add: set_instanceEvents_frame)
  with assms(1) evs x o show ?thesis by auto
qed

text \<open>
  Claim C7.  Constructing an emitter whose prototype holds the class events \<open>ce\<close>
  and no instance events returns, leaves \<open>classEvents\<close> equal to \<open>ce\<close>, wires
  nothing, and changes no other emitter.  For each hook \<open>h\<close> of \<open>ce\<close>,
  \<open>instanceEvents[h]\<close> is the list of the events that \<open>this.on(h, callback)\<close>
  builds from the callbacks of \<open>ce[h]\<close>, in the same order (a hook whose array is
  empty gets no list, since \<open>on\<close> is never called for it), and there is no list for
  any other hook.  Each of these registrations is removable: \<open>off(h, callback)\<close>
  returns and takes one event with that callback out of the list.  The hypotheses say that
  \<open>ce\<close> is an object that \<open>registerEvent\<close> can have built from \<open>{}\<close>: no
  key twice, and no key that objects inherit (\<open>push_event_keys\<close>).
\<close>

theorem constructor_replays_classEvents:
  assumes "distinct (map fst ce)" and "\<forall>k\<in>fst ` set ce. inherited k = None"
  shows
   "thrown (constructor self None (Some ce) s) = None \<and>
    classEvents (emitters (state_of (constructor self None (Some ce) s)) self) = ce \<and>
    wiredEmitters (emitters (state_of (constructor self None (Some ce) s)) self) = [] \<and>
    (\<forall>r. r \<noteq> self \<longrightarrow> emitters (state_of (constructor self None (Some ce) s)) r = emitters s r) \<and>
    (\<forall>h. hookEvents (state_of (constructor self None (Some ce) s)) self h =
         (case map_of ce h of
            None \<Rightarrow> None
          | Some evs \<Rightarrow>
              if evs = [] then None
              else Some (map (\<lambda>ev. Event h (callback ev) self []) evs))) \<and>
    (\<forall>h evs ev. map_of ce h = Some evs \<and> ev \<in> set evs \<longrightarrow>
        thrown (off self h (callback ev) (state_of (constructor self None (Some ce) s))) = None \<and>
        (\<exists>ys x zs.
           hookEvents (state_of (constructor self None (Some ce) s)) self h = Some (ys @ x # zs) \<and>
           callback x = callback ev \<and>
           hookEvents (state_of (off self h (callback ev)
              (state_of (constructor self None (Some ce) s)))) self h = Some (ys @ zs)))"
proof -
  let ?s0 = "s\<lparr>emitters := (emitters s)
           (self := \<lparr>instanceEvents = [], classEvents = ce, wiredEmitters = []\<rparr>)\<rparr>"
  let ?s' = "state_of (constructor self None (Some ce) s)"
  have c: "constructor self None (Some ce) s = replay_all self ce ?s0"
    by (simp add: constructor_replay_all)
  from replay_all_returns [OF assms, of self ?s0] obtain s1 where
    r: "replay_all self ce ?s0 = Return () s1"
    and fr: "\<forall>r. classEvents (emitters s1 r) = classEvents (emitters ?s0 r) \<and>
          wiredEmitters (emitters s1 r) = wiredEmitters (emitters ?s0 r) \<and>
          (r \<noteq> self \<longrightarrow> emitters s1 r = emitters ?s0 r)"
    and hh: "\<forall>r h'. hookEvents s1 r h' =
       (case map_of ce h' of
          Some evs \<Rightarrow>
            if r = self \<and> evs \<noteq> []
            then Some ((case hookEvents ?s0 self h' of None \<Rightarrow> [] | Some xs \<Rightarrow> xs) @
                       map (\<lambda>ev. Event h' (callback ev) self []) evs)
            else hookEvents ?s0 r h'
        | None \<Rightarrow> hookEvents ?s0 r h')"
    by blast
  have s': "?s' = s1" and 0: "thrown (constructor self None (Some ce) s) = None"
    using c r by simp_all
  have 1: "classEvents (emitters ?s' self) = ce" and 2: "wiredEmitters (emitters ?s' self) = []"
    using fr by (simp_all add: s')
  have 3: "\<forall>r. r \<noteq> self \<longrightarrow> emitters ?s' r = emitters s r"
    using fr by (simp add: s')
  have h0: "hookEvents ?s0 self h = None" for h
    by (simp add: hookEvents_def)
  have 4: "hookEvents ?s' self h =
         (case map_of ce h of
            None \<Rightarrow> None
          | Some evs \<Rightarrow>
              if evs = [] then None
              else Some (map (\<lambda>ev. Event h (callback ev) self []) evs))" for h
    using hh by (simp add: s' h0 split: option.splits)
  have 5: "thrown (off self h (callback ev) ?s') = None \<and>
        (\<exists>ys x zs.
           hookEvents ?s' self h = Some (ys @ x # zs) \<and> callback x = callback ev \<and>
           hookEvents (state_of (off self h (callback ev) ?s')) self h = Some (ys @ zs))"
    if "map_of ce h = Some evs \<and> ev \<in> set evs" for h evs ev
  proof (rule off_removes_one)
    from that have "evs \<noteq> []" by auto
    with that show "hookEvents ?s' self h = Some (map (\<lambda>ev. Event h (callback ev) self []) evs)"
      by (simp add: 4)
    have "callback ` set (map (\<lambda>ev. Event h (callback ev) self []) evs) = callback ` set evs"
      by (simp add: image_image Event_def)
    with that show "callback ev \<in> callback ` set (map (\<lambda>ev. Event h (callback ev) self []) evs)"
      by blast
  qed
  from 0 1 2 3 4 5 show ?thesis by blast
qed

theorem constructor_replays_classEvents_witness:
  "distinct (map fst (classEvents collision)) \<and>
   fst ` set (classEvents collision) = {''x''} \<and> inherited ''x'' = None \<and>
   thrown (constructor 0 None (Some (classEvents collision)) init) = None \<and>
   classEvents (emitters (state_of (constructor 0 None (Some (classEvents collision)) init)) 0) =
     classEvents collision \<and>
   hookEvents (state_of (constructor 0 None (Some (classEvents collision)) init)) 0 ''x'' =
     Some [Event ''x'' (Fn 1 []) 0 []] \<and>
   thrown (off 0 ''x'' (Fn 1 [])
      (state_of (constructor 0 None (Some (classEvents collision)) init))) = None \<and>
   hookEvents (state_of (off 0 ''x'' (Fn 1 [])
      (state_of (constructor 0 None (Some (classEvents collision)) init)))) 0 ''x'' = Some []"
proof -
  let ?s' = "state_of (constructor 0 None (Some (classEvents collision)) init)"
  have d: "distinct (map fst (classEvents collision))"
    by (simp add: collision_def)
  have k: "fst ` set (classEvents collision) = {''x''}"
    by (simp add: collision_def)
  have i: "inherited ''x'' = None" by code_simp
  from k i have ki: "\<forall>k\<in>fst ` set (classEvents collision). inherited k = None" by simp
  note t = constructor_replays_classEvents [OF d ki, of 0 init]
  have m: "map_of (classEvents collision) ''x'' = Some [Event ''x'' (Fn 1 []) 9 []]"
    by (simp add: collision_def)
  from t have 0: "thrown (constructor 0 None (Some (classEvents collision)) init) = None" by blast
  from t have 1: "classEvents (emitters ?s' 0) = classEvents collision" by blast
  from t have "hookEvents ?s' 0 ''x'' =
         (case map_of (classEvents collision) ''x'' of
            None \<Rightarrow> None
          | Some evs \<Rightarrow>
              if evs = [] then None
              else Some (map (\<lambda>ev. Event ''x'' (callback ev) 0 []) evs))"
    by blast
  with m have 2: "hookEvents ?s' 0 ''x'' = Some [Event ''x'' (Fn 1 []) 0 []]"
    by (simp add: Event_def)
  have "Event ''x'' (Fn 1 []) 9 [] \<in> set [Event ''x'' (Fn 1 []) 9 []]" by simp
  with t m have "thrown (off 0 ''x'' (callback (Event ''x'' (Fn 1 []) 9 [])) ?s') = None \<and>
        (\<exists>ys x zs.
           hookEvents ?s' 0 ''x'' = Some (ys @ x # zs) \<and>
           callback x = callback (Event ''x'' (Fn 1 []) 9 []) \<and>
           hookEvents (state_of (off 0 ''x'' (callback (Event ''x'' (Fn 1 []) 9 [])) ?s')) 0 ''x'' =
             Some (ys @ zs))"
    by blast
  then obtain ys x zs where
    o: "thrown (off 0 ''x'' (Fn 1 []) ?s') = None" and
    a: "hookEvents ?s' 0 ''x'' = Some (ys @ x # zs)" and
    b: "hookEvents (state_of (off 0 ''x'' (Fn 1 []) ?s')) 0 ''x'' = Some (ys @ zs)"
    by (auto simp: Event_def)
  from a 2 have "ys = [] \<and> zs = []"
    by (cases ys) auto
  with b have 3: "hookEvents (state_of (off 0 ''x'' (Fn 1 []) ?s')) 0 ''x'' = Some []" by simp
  from d k i 0 1 2 o 3 show ?thesis by blast
qed


subsection \<open>One call, and invariants of the loops\<close>

lemma off_calls_objects:
  "calls (state_of (off r h cb s)) = calls s"
  "objects (state_of (off r h cb s)) = objects s"
  "nextobj (state_of (off r h cb s)) = nextobj s"
  by (simp_all add: off_def set_instanceEvents_def split: option.splits)

lemma apply_callback_calls:
  "calls (state_of (apply_callback st cb c a s)) = calls s @ entries st cb c a (objects s a)"
proof (induction cb arbitrary: st s)
  case (OneTimeCallback i h cb)
  let ?s1 = "record_call st (OneTimeCallback i h cb) c a s"
  have "calls (state_of (apply_callback Wrapper cb c a ?s1)) =
      calls ?s1 @ entries Wrapper cb c a (objects ?s1 a)"
    by (rule OneTimeCallback.IH)
  then have *: "calls (state_of (apply_callback Wrapper cb c a ?s1)) =
      calls s @ entries st (OneTimeCallback i h cb) c a (objects s a)"
    by (simp add: record_call_def)
  show ?case
  proof (cases "apply_callback Wrapper cb c a ?s1")
    case (Throw e s')
    with * show ?thesis by simp
  next
    case (Return u s')
    with * show ?thesis by (cases c) (simp_all add: off_calls_objects)
  qed
qed (simp_all add: record_call_def assign_all_def)

lemma apply_callback_objects:
  "nextobj (state_of (apply_callback st cb c a s)) = nextobj s \<and>
   (\<forall>a'. a' \<noteq> a \<longrightarrow> objects (state_of (apply_callback st cb c a s)) a' = objects s a')"
proof (induction cb arbitrary: st s)
  case (OneTimeCallback i h cb)
  let ?s1 = "record_call st (OneTimeCallback i h cb) c a s"
  have *: "nextobj (state_of (apply_callback Wrapper cb c a ?s1)) = nextobj s \<and>
   (\<forall>a'. a' \<noteq> a \<longrightarrow> objects (state_of (apply_callback Wrapper cb c a ?s1)) a' = objects s a')"
    using OneTimeCallback.IH [of Wrapper ?s1] by (simp add: record_call_def)
  show ?case
  proof (cases "apply_callback Wrapper cb c a ?s1")
    case (Throw e s')
    with * show ?thesis by simp
  next
    case (Return u s')
    with * show ?thesis by (cases c) (simp_all add: off_calls_objects)
  qed
qed (simp_all add: record_call_def assign_all_def)

lemma dispatch_calls:
  "calls (state_of (dispatch cb c p s)) = calls s @ entries Dispatch cb c (nextobj s) (objects s p)"
proof (cases "falsy cb")
  case True
  then show ?thesis by (auto simp: dispatch_def falsy_def)
next
  case False
  then show ?thesis
    by (simp add: dispatch_def spread_def apply_callback_calls)
qed

lemma dispatch_objects:
  "nextobj s \<le> nextobj (state_of (dispatch cb c p s)) \<and>
   nextobj (state_of (dispatch cb c p s)) \<le> Suc (nextobj s) \<and>
   (entries Dispatch cb c (nextobj s) (objects s p) \<noteq> [] \<longrightarrow>
      nextobj (state_of (dispatch cb c p s)) = Suc (nextobj s)) \<and>
   (\<forall>a<nextobj s. objects (state_of (dispatch cb c p s)) a = objects s a)"
proof (cases "falsy cb")
  case True
  then show ?thesis by (auto simp: dispatch_def falsy_def)
next
  case False
  then show ?thesis
    using apply_callback_objects [of Dispatch cb c "nextobj s"
        "s\<lparr>objects := (objects s)(nextobj s := objects s p), nextobj := Suc (nextobj s)\<rparr>"]
    by (simp add: dispatch_def spread_def)
qed


lemma call_each_cached_invariant:
  assumes refl: "\<And>p s. R p s s"
    and trans: "\<And>p s1 s2 s3. R p s1 s2 \<Longrightarrow> R p s2 s3 \<Longrightarrow> R p s1 s3"
    and step: "\<And>cb c p s. R p s (state_of (dispatch cb c p s))"
  shows "R p s (state_of (call_each_cached c owner h p len e s))"
proof (induction c owner h p len e s rule: call_each_cached.induct)
  case (1 c owner h p len e s)
  show ?case
  proof (cases "e < len")
    case False
    then show ?thesis by (subst call_each_cached.simps) (simp add: refl)
  next
    case True
    show ?thesis
    proof (cases "hookEvents s owner h")
      case None
      with True show ?thesis by (subst call_each_cached.simps) (simp add: refl)
    next
      case (Some evs)
      show ?thesis
      proof (cases "e < length evs")
        case False
        with True Some show ?thesis by (subst call_each_cached.simps) (simp add: refl)
      next
        case inb: True
        have d: "R p s (state_of (dispatch (callback (evs ! e)) c p s))" by (rule step)
        show ?thesis
        proof (cases "dispatch (callback (evs ! e)) c p s")
          case (Throw err s')
          with True Some inb d show ?thesis by (subst call_each_cached.simps) simp
        next
          case (Return u s')
          with True Some inb "1.IH"
          have "R p s' (state_of (call_each_cached c owner h p len (Suc e) s'))" by simp
          with d Return have "R p s (state_of (call_each_cached c owner h p len (Suc e) s'))"
            by (auto intro: trans)
          with True Some inb Return show ?thesis by (subst call_each_cached.simps) simp
        qed
      qed
    qed
  qed
qed

lemma call_each_live_invariant:
  assumes refl: "\<And>p s. R p s s"
    and trans: "\<And>p s1 s2 s3. R p s1 s2 \<Longrightarrow> R p s2 s3 \<Longrightarrow> R p s1 s3"
    and step: "\<And>cb c p s. R p s (state_of (dispatch cb c p s))"
  shows "R p s (state_of (call_each_live guard c owner h p e s))"
proof (induction guard c owner h p e s rule: call_each_live.induct)
  case (1 guard c owner h p e s)
  show ?case
  proof (cases "hookEvents s owner h")
    case None
    then show ?thesis by (subst call_each_live.simps) (simp add: refl split: option.splits)
  next
    case (Some evs)
    show ?thesis
    proof (cases "e < length evs")
      case False
      with Some show ?thesis by (subst call_each_live.simps) (simp add: refl)
    next
      case True
      show ?thesis
      proof (cases "guard \<and> falsy (callback (evs ! e))")
        case skip: True
        with Some True "1.IH"(1) show ?thesis by (subst call_each_live.simps) simp
      next
        case call: False
        have d: "R p s (state_of (dispatch (callback (evs ! e)) c p s))" by (rule step)
        show ?thesis
        proof (cases "dispatch (callback (evs ! e)) c p s")
          case (Throw err s')
          with Some True call d show ?thesis by (subst call_each_live.simps) auto
        next
          case (Return u s')
          with Some True call "1.IH"(2)
          have "R p s' (state_of (call_each_live guard c owner h p (Suc e) s'))" by simp
          with d Return have "R p s (state_of (call_each_live guard c owner h p (Suc e) s'))"
            by (auto intro: trans)
          with Some True call Return show ?thesis by (subst call_each_live.simps) auto
        qed
      qed
    qed
  qed
qed

lemma wired_loop_invariant:
  assumes refl: "\<And>p s. R p s s"
    and trans: "\<And>p s1 s2 s3. R p s1 s2 \<Longrightarrow> R p s2 s3 \<Longrightarrow> R p s1 s3"
    and step: "\<And>cb c p s. R p s (state_of (dispatch cb c p s))"
  shows "R p s (state_of (wired_loop guard self h p w s))"
proof (induction guard self h p w s rule: wired_loop.induct)
  case (1 guard self h p w s)
  let ?W = "wiredEmitters (emitters s self) ! w"
  show ?case
  proof (cases "w < length (wiredEmitters (emitters s self))")
    case False
    then show ?thesis by (subst wired_loop.simps) (simp add: refl)
  next
    case True
    show ?thesis
    proof (cases "length_read s ?W h")
      case None
      with True "1.IH"(1) show ?thesis by (subst wired_loop.simps) simp
    next
      case (Some n)
      have d: "R p s (state_of (call_each_live guard (Emitter ?W) ?W h p 0 s))"
        by (rule call_each_live_invariant [where R = R, OF refl trans step])
      show ?thesis
      proof (cases "call_each_live guard (Emitter ?W) ?W h p 0 s")
        case (Throw err s')
        with True Some d show ?thesis by (subst wired_loop.simps) simp
      next
        case (Return u s')
        with True Some "1.IH"(2)
        have "R p s' (state_of (wired_loop guard self h p (Suc w) s'))" by simp
        with d Return have "R p s (state_of (wired_loop guard self h p (Suc w) s'))"
          by (auto intro: trans)
        with True Some Return show ?thesis by (subst wired_loop.simps) simp
      qed
    qed
  qed
qed

lemma fire_from_invariant:
  assumes refl: "\<And>p s. R p s s"
    and trans: "\<And>p s1 s2 s3. R p s1 s2 \<Longrightarrow> R p s2 s3 \<Longrightarrow> R p s1 s3"
    and step: "\<And>cb c p s. R p s (state_of (dispatch cb c p s))"
  shows "R p s (state_of (fire_from self h p s))"
proof -
  define r1 where "r1 = (case length_read s self h of
              None \<Rightarrow> Return () s
            | Some len \<Rightarrow> call_each_cached (Emitter self) self h p len 0 s)"
  have 1: "R p s (state_of r1)"
    unfolding r1_def
    by (cases "length_read s self h")
      (simp_all add: refl call_each_cached_invariant [where R = R, OF refl trans step])
  show ?thesis
  proof (cases r1)
    case (Throw err s1)
    with 1 show ?thesis by (simp add: fire_from_def r1_def [symmetric])
  next
    case (Return u s1)
    have "R p s1 (state_of (wired_loop True self h p 0 s1))"
      by (rule wired_loop_invariant [where R = R, OF refl trans step])
    with 1 Return have "R p s (state_of (wired_loop True self h p 0 s1))"
      by (auto intro: trans)
    with Return show ?thesis
      by (auto simp: fire_from_def r1_def [symmetric] split: result.splits)
  qed
qed


subsection \<open>The argument of every call is a fresh copy\<close>

lemma fresh_copies_refl: "fresh_copies p s s"
  by (simp add: fresh_copies_def)

lemma fresh_copies_trans:
  assumes "fresh_copies p s1 s2" and "fresh_copies p s2 s3"
  shows "fresh_copies p s1 s3"
  unfolding fresh_copies_def
proof (intro impI)
  assume p: "p < nextobj s1"
  with assms(1) obtain new1 where
    n1: "nextobj s1 \<le> nextobj s2" and o1: "\<forall>a<nextobj s1. objects s2 a = objects s1 a"
    and c1: "calls s2 = calls s1 @ new1"
    and e1: "\<forall>c\<in>set new1. seen c = objects s1 p \<and> nextobj s1 \<le> arg c \<and> arg c < nextobj s2"
    and d1: "distinct (map arg (filter (\<lambda>c. site c = Dispatch) new1))"
    unfolding fresh_copies_def by blast
  from p n1 have p2: "p < nextobj s2" by simp
  with assms(2) obtain new2 where
    n2: "nextobj s2 \<le> nextobj s3" and o2: "\<forall>a<nextobj s2. objects s3 a = objects s2 a"
    and c2: "calls s3 = calls s2 @ new2"
    and e2: "\<forall>c\<in>set new2. seen c = objects s2 p \<and> nextobj s2 \<le> arg c \<and> arg c < nextobj s3"
    and d2: "distinct (map arg (filter (\<lambda>c. site c = Dispatch) new2))"
    unfolding fresh_copies_def by blast
  have po: "objects s2 p = objects s1 p" using o1 p by simp
  have "calls s3 = calls s1 @ (new1 @ new2)" using c1 c2 by simp
  moreover have "\<forall>c\<in>set (new1 @ new2).
      seen c = objects s1 p \<and> nextobj s1 \<le> arg c \<and> arg c < nextobj s3"
    using e1 e2 n1 n2 po by fastforce
  moreover have "distinct (map arg (filter (\<lambda>c. site c = Dispatch) (new1 @ new2)))"
    using d1 d2 e1 e2 by fastforce
  moreover have "nextobj s1 \<le> nextobj s3" using n1 n2 by simp
  moreover have "\<forall>a<nextobj s1. objects s3 a = objects s1 a" using o1 o2 n1 by simp
  ultimately show "nextobj s1 \<le> nextobj s3 \<and>
        (\<forall>a<nextobj s1. objects s3 a = objects s1 a) \<and>
        (\<exists>new. calls s3 = calls s1 @ new \<and>
           (\<forall>c\<in>set new. seen c = objects s1 p \<and> nextobj s1 \<le> arg c \<and> arg c < nextobj s3) \<and>
           distinct (map arg (filter (\<lambda>c. site c = Dispatch) new)))"
    by blast
qed

lemma entries_fields:
  "c' \<in> set (entries st cb c a ob) \<Longrightarrow> this c' = c \<and> arg c' = a \<and> seen c' = ob"
  by (induction cb arbitrary: st) auto

lemma entries_Wrapper_site:
  "filter (\<lambda>c. site c = Dispatch) (entries Wrapper cb c a ob) = []"
  by (induction cb) auto

lemma entries_Dispatch_site:
  "length (filter (\<lambda>c. site c = Dispatch) (entries Dispatch cb c a ob)) \<le> 1"
  by (cases cb) (simp_all add: entries_Wrapper_site)

lemma dispatch_fresh_copies: "fresh_copies p s (state_of (dispatch cb c p s))"
  unfolding fresh_copies_def
proof (intro impI)
  assume p: "p < nextobj s"
  let ?s' = "state_of (dispatch cb c p s)"
  let ?new = "entries Dispatch cb c (nextobj s) (objects s p)"
  note o = dispatch_objects [of s cb c p]
  have "length (map arg (filter (\<lambda>c. site c = Dispatch) ?new)) \<le> 1"
    using entries_Dispatch_site [of cb c "nextobj s" "objects s p"] by simp
  then have "distinct (map arg (filter (\<lambda>c. site c = Dispatch) ?new))"
    by (cases "map arg (filter (\<lambda>c. site c = Dispatch) ?new)") auto
  moreover have "\<forall>c'\<in>set ?new. seen c' = objects s p \<and> nextobj s \<le> arg c' \<and> arg c' < nextobj ?s'"
  proof
    fix c' assume c': "c' \<in> set ?new"
    then have "?new \<noteq> []" by auto
    with o have "nextobj ?s' = Suc (nextobj s)" by blast
    with entries_fields [OF c'] show "seen c' = objects s p \<and> nextobj s \<le> arg c' \<and> arg c' < nextobj ?s'"
      by simp
  qed
  moreover have "calls ?s' = calls s @ ?new" by (rule dispatch_calls)
  ultimately show "nextobj s \<le> nextobj ?s' \<and>
        (\<forall>a<nextobj s. objects ?s' a = objects s a) \<and>
        (\<exists>new. calls ?s' = calls s @ new \<and>
           (\<forall>c\<in>set new. seen c = objects s p \<and> nextobj s \<le> arg c \<and> arg c < nextobj ?s') \<and>
           distinct (map arg (filter (\<lambda>c. site c = Dispatch) new)))"
    using o by blast
qed

lemma fire_from_fresh_copies: "fresh_copies p s (state_of (fire_from self h p s))"
  by (rule fire_from_invariant [where R = fresh_copies,
        OF fresh_copies_refl fresh_copies_trans dispatch_fresh_copies])

text \<open>
  Claim C8.  When \<open>params\<close> is an object of the store (or is left out), every call
  made during \<open>fire(H, params)\<close> receives an object that did not exist before the
  \<open>fire\<close>, that is not \<open>params\<close>, and that held exactly the properties of
  \<open>params\<close> when the call began, whatever the callbacks called earlier assigned to
  their own arguments; and no two calls made by the dispatch loops receive the same
  object.  (The closure of \<open>once\<close> passes the object it received on to the callback
  it wraps: site \<open>Wrapper\<close>.)
\<close>

theorem fire_copies_params:
  assumes "case given of None \<Rightarrow> True | Some p \<Rightarrow> p < nextobj s"
  shows "\<exists>new. calls (state_of (fire e H given s)) = calls s @ new \<and>
      (\<forall>c\<in>set new.
          seen c = (case given of None \<Rightarrow> [] | Some p \<Rightarrow> objects s p) \<and>
          arg c \<noteq> fst (default_params given s) \<and> nextobj s \<le> arg c) \<and>
      distinct (map arg (filter (\<lambda>c. site c = Dispatch) new))"
proof -
  obtain p s0 where d: "default_params given s = (p, s0)" by (cases "default_params given s")
  have p: "p < nextobj s0" and n: "nextobj s \<le> nextobj s0" and c0: "calls s0 = calls s"
    and o: "objects s0 p = (case given of None \<Rightarrow> [] | Some p \<Rightarrow> objects s p)"
    using d assms by (auto simp: default_params_def split: option.splits)
  have f: "fire e H given s = fire_from e H p s0"
    by (simp add: fire_def d)
  from fire_from_fresh_copies [of p s0 e H] p obtain new where
    "calls (state_of (fire_from e H p s0)) = calls s0 @ new"
    "\<forall>c\<in>set new. seen c = objects s0 p \<and> nextobj s0 \<le> arg c"
    "distinct (map arg (filter (\<lambda>c. site c = Dispatch) new))"
    unfolding fresh_copies_def by blast
  with p n c0 o d f have "calls (state_of (fire e H given s)) = calls s @ new \<and>
      (\<forall>c\<in>set new.
          seen c = (case given of None \<Rightarrow> [] | Some p \<Rightarrow> objects s p) \<and>
          arg c \<noteq> fst (default_params given s) \<and> nextobj s \<le> arg c) \<and>
      distinct (map arg (filter (\<lambda>c. site c = Dispatch) new))"
    by fastforce
  then show ?thesis ..
qed


theorem fire_copies_params_witness:
  "0 < nextobj writers \<and>
   (\<exists>new. calls (state_of (fire 0 ''x'' (Some 0) writers)) = calls writers @ new \<and>
      (\<forall>c\<in>set new. seen c = objects writers 0 \<and> arg c \<noteq> 0 \<and> nextobj writers \<le> arg c) \<and>
      distinct (map arg (filter (\<lambda>c. site c = Dispatch) new))) \<and>
   map (\<lambda>c. (callee c, arg c, seen c)) (calls (state_of (fire 0 ''x'' (Some 0) writers))) =
     [(Fn 1 [(''k'', Num 1)], 1, [(''k'', Num 0)]), (Fn 2 [(''k'', Num 2)], 2, [(''k'', Num 0)])] \<and>
   objects (state_of (fire 0 ''x'' (Some 0) writers)) 1 = [(''k'', Num 1)]"
proof -
  have n: "0 < nextobj writers" by code_simp
  have d: "default_params (Some 0) writers = (0, writers)" by (simp add: default_params_def)
  have 1: "\<exists>new. calls (state_of (fire 0 ''x'' (Some 0) writers)) = calls writers @ new \<and>
      (\<forall>c\<in>set new. seen c = objects writers 0 \<and> arg c \<noteq> 0 \<and> nextobj writers \<le> arg c) \<and>
      distinct (map arg (filter (\<lambda>c. site c = Dispatch) new))"
    using fire_copies_params [where given = "Some 0" and s = writers and e = 0 and H = "''x''"] n d
    by simp
  have 2: "map (\<lambda>c. (callee c, arg c, seen c)) (calls (state_of (fire 0 ''x'' (Some 0) writers))) =
     [(Fn 1 [(''k'', Num 1)], 1, [(''k'', Num 0)]), (Fn 2 [(''k'', Num 2)], 2, [(''k'', Num 0)])]"
    by code_simp
  have 3: "objects (state_of (fire 0 ''x'' (Some 0) writers)) 1 = [(''k'', Num 1)]"
    by code_simp
  from n 1 2 3 show ?thesis by blast
qed


subsection \<open>The calls of a dispatch are those of listeners, in order\<close>

lemma entries_pairs:
  "map (\<lambda>x. (this x, callee x)) (entries st cb c a ob) = map (Pair c) (invoked cb)"
  by (induction cb arbitrary: st) auto

lemma dispatched_refl: "dispatched s s []"
  by (simp add: dispatched_def calls_of_def)

lemma dispatched_trans:
  "dispatched s1 s2 ds1 \<Longrightarrow> dispatched s2 s3 ds2 \<Longrightarrow> dispatched s1 s3 (ds1 @ ds2)"
  by (auto simp: dispatched_def calls_of_def)

lemma dispatched_dispatch: "dispatched s (state_of (dispatch cb c p s)) [(c, cb)]"
  by (simp add: dispatched_def calls_of_def dispatch_calls entries_pairs)

lemma dispatched_falsy:
  "falsy cb \<Longrightarrow> dispatched s s' ds \<Longrightarrow> dispatched s s' ((c, cb) # ds)"
  by (auto simp: dispatched_def calls_of_def falsy_def)

lemma subseq_drop: "subseq xs ys \<Longrightarrow> subseq (drop n xs) (drop n ys)"
proof (induction arbitrary: n rule: list_emb.induct)
  case (list_emb_Nil ys)
  then show ?case by simp
next
  case (list_emb_Cons xs ys y)
  show ?case
  proof (cases n)
    case 0
    with list_emb_Cons.hyps show ?thesis by (simp add: list_emb.list_emb_Cons)
  next
    case (Suc m)
    have "subseq (drop (Suc m) xs) (drop m xs)" by (rule subseq_drop_Suc)
    also have "subseq (drop m xs) (drop m ys)" by (rule list_emb_Cons.IH)
    finally show ?thesis using Suc by simp
  qed
next
  case (list_emb_Cons2 x y xs ys)
  then show ?case by (cases n) auto
qed

lemma removes_only_callbacks_of:
  assumes "removes_only s s'"
  shows "subseq (callbacks_of s' w h) (callbacks_of s w h)"
proof -
  from assms have "rel_option subseq (hookEvents s' w h) (hookEvents s w h)"
    unfolding removes_only_def by blast
  then show ?thesis
    by (cases "hookEvents s' w h"; cases "hookEvents s w h")
      (auto simp: callbacks_of_def subseq_map)
qed

lemma removes_only_listeners:
  "removes_only s s' \<Longrightarrow> subseq (listeners s' w h) (listeners s w h)"
  by (simp add: listeners_def subseq_map removes_only_callbacks_of)

lemma subseq_concat_map:
  "(\<And>x. subseq (f x) (g x)) \<Longrightarrow> subseq (concat (map f xs)) (concat (map g xs))"
  by (induction xs) (auto intro: list_emb_append_mono)

lemma drop_callbacks_of:
  assumes "hookEvents s owner h = Some evs" and "e < length evs"
  shows "drop e (callbacks_of s owner h) = callback (evs ! e) # drop (Suc e) (callbacks_of s owner h)"
proof -
  have "drop e (map callback evs) = map callback evs ! e # drop (Suc e) (map callback evs)"
    using assms(2) by (intro Cons_nth_drop_Suc [symmetric]) simp
  with assms show ?thesis by (simp add: callbacks_of_def)
qed


lemma call_each_cached_removes_only:
  "removes_only s (state_of (call_each_cached c owner h p len e s))"
  by (rule call_each_cached_invariant [where R = "\<lambda>p. removes_only",
        OF removes_only_refl removes_only_trans dispatch_removes_only])

lemma wired_loop_removes_only:
  "removes_only s (state_of (wired_loop guard self h p w s))"
  by (rule wired_loop_invariant [where R = "\<lambda>p. removes_only",
        OF removes_only_refl removes_only_trans dispatch_removes_only])

lemma callbacks_of_None: "hookEvents s owner h = None \<Longrightarrow> callbacks_of s owner h = []"
  by (simp add: callbacks_of_def)

lemma subseq_after_dispatch:
  assumes evs: "hookEvents s owner h = Some evs" and e: "e < length evs"
    and s1: "removes_only s s1"
    and ds: "subseq ds (map (Pair c) (drop (Suc e) (callbacks_of s1 owner h)))"
  shows "subseq ((c, callback (evs ! e)) # ds) (map (Pair c) (drop e (callbacks_of s owner h)))"
proof -
  have "subseq (drop (Suc e) (callbacks_of s1 owner h)) (drop (Suc e) (callbacks_of s owner h))"
    by (intro subseq_drop removes_only_callbacks_of s1)
  then have "subseq (map (Pair c) (drop (Suc e) (callbacks_of s1 owner h)))
      (map (Pair c) (drop (Suc e) (callbacks_of s owner h)))"
    by (rule subseq_map)
  with ds have "subseq ds (map (Pair c) (drop (Suc e) (callbacks_of s owner h)))"
    by (rule subseq_order.trans)
  then show ?thesis
    by (simp add: drop_callbacks_of [OF evs e])
qed

lemma call_each_cached_cases:
  "\<not> e < len \<Longrightarrow> call_each_cached c owner h p len e s = Return () s"
  "e < len \<Longrightarrow> hookEvents s owner h = None \<Longrightarrow>
     call_each_cached c owner h p len e s = Throw TypeError s"
  "e < len \<Longrightarrow> hookEvents s owner h = Some evs \<Longrightarrow> \<not> e < length evs \<Longrightarrow>
     call_each_cached c owner h p len e s = Throw TypeError s"
  "e < len \<Longrightarrow> hookEvents s owner h = Some evs \<Longrightarrow> e < length evs \<Longrightarrow>
     dispatch (callback (evs ! e)) c p s = Throw err s' \<Longrightarrow>
     call_each_cached c owner h p len e s = Throw err s'"
  "e < len \<Longrightarrow> hookEvents s owner h = Some evs \<Longrightarrow> e < length evs \<Longrightarrow>
     dispatch (callback (evs ! e)) c p s = Return u s' \<Longrightarrow>
     call_each_cached c owner h p len e s = call_each_cached c owner h p len (Suc e) s'"
  by (subst call_each_cached.simps, simp)+

lemma call_each_live_cases:
  "hookEvents s owner h = None \<Longrightarrow> state_of (call_each_live guard c owner h p e s) = s"
  "hookEvents s owner h = Some evs \<Longrightarrow> \<not> e < length evs \<Longrightarrow>
     call_each_live guard c owner h p e s = Return () s"
  "hookEvents s owner h = Some evs \<Longrightarrow> e < length evs \<Longrightarrow>
     guard \<and> falsy (callback (evs ! e)) \<Longrightarrow>
     call_each_live guard c owner h p e s = call_each_live guard c owner h p (Suc e) s"
  "hookEvents s owner h = Some evs \<Longrightarrow> e < length evs \<Longrightarrow>
     \<not> (guard \<and> falsy (callback (evs ! e))) \<Longrightarrow>
     dispatch (callback (evs ! e)) c p s = Throw err s' \<Longrightarrow>
     call_each_live guard c owner h p e s = Throw err s'"
  "hookEvents s owner h = Some evs \<Longrightarrow> e < length evs \<Longrightarrow>
     \<not> (guard \<and> falsy (callback (evs ! e))) \<Longrightarrow>
     dispatch (callback (evs ! e)) c p s = Return u s' \<Longrightarrow>
     call_each_live guard c owner h p e s = call_each_live guard c owner h p (Suc e) s'"
  by (subst call_each_live.simps, auto split: option.splits)+

lemma call_each_live_unregistered:
  "hookEvents s owner h = None \<Longrightarrow>
     call_each_live guard c owner h p e s =
       (case inherited h of
          None \<Rightarrow> Throw TypeError s
        | Some len \<Rightarrow> if e < turns len then Throw TypeError s else Return () s)"
  by (subst call_each_live.simps) simp

lemma wired_loop_cases:
  "\<not> w < length (wiredEmitters (emitters s self)) \<Longrightarrow>
     wired_loop guard self h p w s = Return () s"
  "w < length (wiredEmitters (emitters s self)) \<Longrightarrow>
     length_read s (wiredEmitters (emitters s self) ! w) h = None \<Longrightarrow>
     wired_loop guard self h p w s = wired_loop guard self h p (Suc w) s"
  "w < length (wiredEmitters (emitters s self)) \<Longrightarrow>
     length_read s (wiredEmitters (emitters s self) ! w) h = Some n \<Longrightarrow>
     call_each_live guard (Emitter (wiredEmitters (emitters s self) ! w))
       (wiredEmitters (emitters s self) ! w) h p 0 s = Throw err s' \<Longrightarrow>
     wired_loop guard self h p w s = Throw err s'"
  "w < length (wiredEmitters (emitters s self)) \<Longrightarrow>
     length_read s (wiredEmitters (emitters s self) ! w) h = Some n \<Longrightarrow>
     call_each_live guard (Emitter (wiredEmitters (emitters s self) ! w))
       (wiredEmitters (emitters s self) ! w) h p 0 s = Return u s' \<Longrightarrow>
     wired_loop guard self h p w s = wired_loop guard self h p (Suc w) s'"
  by (subst wired_loop.simps, simp)+

lemma call_each_cached_dispatched:
  "\<exists>ds. subseq ds (map (Pair c) (drop e (callbacks_of s owner h))) \<and>
        dispatched s (state_of (call_each_cached c owner h p len e s)) ds"
proof (induction c owner h p len e s rule: call_each_cached.induct)
  case (1 c owner h p len e s)
  have idle: "\<exists>ds. subseq ds (map (Pair c) (drop e (callbacks_of s owner h))) \<and> dispatched s s ds"
    by (rule exI [where x = "[]"]) (simp add: dispatched_refl)
  show ?case
  proof (cases "e < len")
    case False
    show ?thesis
      unfolding call_each_cached_cases(1) [OF False] state_of.simps by (rule idle)
  next
    case True
    show ?thesis
    proof (cases "hookEvents s owner h")
      case None
      show ?thesis
        unfolding call_each_cached_cases(2) [OF True None] state_of.simps by (rule idle)
    next
      case (Some evs)
      show ?thesis
      proof (cases "e < length evs")
        case False
        show ?thesis
          unfolding call_each_cached_cases(3) [OF True Some False] state_of.simps
          by (rule idle)
      next
        case inb: True
        let ?cb = "callback (evs ! e)"
        have d: "dispatched s (state_of (dispatch ?cb c p s)) [(c, ?cb)]"
          by (rule dispatched_dispatch)
        have r: "removes_only s (state_of (dispatch ?cb c p s))"
          by (rule dispatch_removes_only)
        show ?thesis
        proof (cases "dispatch ?cb c p s")
          case (Throw err s')
          have "subseq [(c, ?cb)] (map (Pair c) (drop e (callbacks_of s owner h)))"
            by (simp add: drop_callbacks_of [OF Some inb])
          with d Throw have "\<exists>ds. subseq ds (map (Pair c) (drop e (callbacks_of s owner h))) \<and>
              dispatched s s' ds"
            by auto
          then show ?thesis
            by (simp add: call_each_cached_cases(4) [OF True Some inb Throw])
        next
          case (Return u s')
          let ?r = "call_each_cached c owner h p len (Suc e) s'"
          from True Some inb Return "1.IH" obtain ds where
            ds: "subseq ds (map (Pair c) (drop (Suc e) (callbacks_of s' owner h)))"
            and dd: "dispatched s' (state_of ?r) ds"
            by auto
          from r Return have "removes_only s s'" by simp
          with Some inb ds
          have "subseq ((c, ?cb) # ds) (map (Pair c) (drop e (callbacks_of s owner h)))"
            by (intro subseq_after_dispatch)
          moreover from d Return dd have "dispatched s (state_of ?r) ([(c, ?cb)] @ ds)"
            by (intro dispatched_trans [of s s']) simp_all
          ultimately have "\<exists>ds. subseq ds (map (Pair c) (drop e (callbacks_of s owner h))) \<and>
              dispatched s (state_of ?r) ds"
            by auto
          then show ?thesis
            by (simp add: call_each_cached_cases(5) [OF True Some inb Return])
        qed
      qed
    qed
  qed
qed

lemma call_each_live_dispatched:
  "\<exists>ds. subseq ds (map (Pair c) (drop e (callbacks_of s owner h))) \<and>
        dispatched s (state_of (call_each_live guard c owner h p e s)) ds"
proof (induction guard c owner h p e s rule: call_each_live.induct)
  case (1 guard c owner h p e s)
  have idle: "\<exists>ds. subseq ds (map (Pair c) (drop e (callbacks_of s owner h))) \<and> dispatched s s ds"
    by (rule exI [where x = "[]"]) (simp add: dispatched_refl)
  show ?case
  proof (cases "hookEvents s owner h")
    case None
    show ?thesis
      unfolding call_each_live_cases(1) [OF None] by (rule idle)
  next
    case (Some evs)
    show ?thesis
    proof (cases "e < length evs")
      case False
      show ?thesis
        unfolding call_each_live_cases(2) [OF Some False] state_of.simps by (rule idle)
    next
      case inb: True
      let ?cb = "callback (evs ! e)"
      let ?r = "\<lambda>s'. call_each_live guard c owner h p (Suc e) s'"
      show ?thesis
      proof (cases "guard \<and> falsy ?cb")
        case skip: True
        with Some inb "1.IH"(1) obtain ds where
          ds: "subseq ds (map (Pair c) (drop (Suc e) (callbacks_of s owner h)))"
          and dd: "dispatched s (state_of (?r s)) ds"
          by auto
        from ds have "subseq ds (map (Pair c) (drop e (callbacks_of s owner h)))"
          by (simp add: drop_callbacks_of [OF Some inb] list_emb.list_emb_Cons)
        with dd have "\<exists>ds. subseq ds (map (Pair c) (drop e (callbacks_of s owner h))) \<and>
              dispatched s (state_of (?r s)) ds"
          by auto
        then show ?thesis
          by (simp add: call_each_live_cases(3) [OF Some inb skip])
      next
        case call: False
        have d: "dispatched s (state_of (dispatch ?cb c p s)) [(c, ?cb)]"
          by (rule dispatched_dispatch)
        have r: "removes_only s (state_of (dispatch ?cb c p s))"
          by (rule dispatch_removes_only)
        show ?thesis
        proof (cases "dispatch ?cb c p s")
          case (Throw err s')
          have "subseq [(c, ?cb)] (map (Pair c) (drop e (callbacks_of s owner h)))"
            by (simp add: drop_callbacks_of [OF Some inb])
          with d Throw have "\<exists>ds. subseq ds (map (Pair c) (drop e (callbacks_of s owner h))) \<and>
              dispatched s s' ds"
            by auto
          then show ?thesis
            by (simp add: call_each_live_cases(4) [OF Some inb call Throw])
        next
          case (Return u s')
          from Some inb call Return "1.IH"(2) obtain ds where
            ds: "subseq ds (map (Pair c) (drop (Suc e) (callbacks_of s' owner h)))"
            and dd: "dispatched s' (state_of (?r s')) ds"
            by auto
          from r Return have "removes_only s s'" by simp
          with Some inb ds
          have "subseq ((c, ?cb) # ds) (map (Pair c) (drop e (callbacks_of s owner h)))"
            by (intro subseq_after_dispatch)
          moreover from d Return dd have "dispatched s (state_of (?r s')) ([(c, ?cb)] @ ds)"
            by (intro dispatched_trans [of s s']) simp_all
          ultimately have "\<exists>ds. subseq ds (map (Pair c) (drop e (callbacks_of s owner h))) \<and>
              dispatched s (state_of (?r s')) ds"
            by auto
          then show ?thesis
            by (simp add: call_each_live_cases(5) [OF Some inb call Return])
        qed
      qed
    qed
  qed
qed


lemma listeners_None: "hookEvents s w h = None \<Longrightarrow> listeners s w h = []"
  by (simp add: listeners_def callbacks_of_None)

lemma length_read_None: "length_read s w h = None \<Longrightarrow> hookEvents s w h = None"
  by (simp add: length_read_def split: option.splits)

lemma length_read_Some: "hookEvents s w h = Some evs \<Longrightarrow> length_read s w h = Some (length evs)"
  by (simp add: length_read_def)

lemma length_read_unregistered:
  "hookEvents s w h = None \<Longrightarrow>
     length_read s w h = (case inherited h of None \<Rightarrow> None | Some len \<Rightarrow> Some (turns len))"
  by (simp add: length_read_def)

lemma removes_only_wiredEmitters:
  "removes_only s s' \<Longrightarrow> wiredEmitters (emitters s' r) = wiredEmitters (emitters s r)"
  by (simp add: removes_only_def)

lemma subseq_wired_listeners:
  assumes "removes_only s s'"
  shows "subseq (concat (map (\<lambda>w. listeners s' w h) (drop n (wiredEmitters (emitters s' self)))))
           (concat (map (\<lambda>w. listeners s w h) (drop n (wiredEmitters (emitters s self)))))"
  using assms
  by (simp add: removes_only_wiredEmitters subseq_concat_map removes_only_listeners)

lemma wired_loop_dispatched:
  "\<exists>ds. subseq ds (concat (map (\<lambda>w. listeners s w h) (drop w (wiredEmitters (emitters s self))))) \<and>
        dispatched s (state_of (wired_loop guard self h p w s)) ds"
proof (induction guard self h p w s rule: wired_loop.induct)
  case (1 guard self h p w s)
  let ?ws = "wiredEmitters (emitters s self)"
  let ?W = "?ws ! w"
  let ?rest = "concat (map (\<lambda>w. listeners s w h) (drop (Suc w) ?ws))"
  show ?case
  proof (cases "w < length ?ws")
    case False
    have "\<exists>ds. subseq ds (concat (map (\<lambda>w. listeners s w h) (drop w ?ws))) \<and> dispatched s s ds"
      by (rule exI [where x = "[]"]) (simp add: dispatched_refl)
    then show ?thesis
      by (simp add: wired_loop_cases(1) [OF False])
  next
    case True
    then have split: "concat (map (\<lambda>w. listeners s w h) (drop w ?ws)) = listeners s ?W h @ ?rest"
      by (simp add: Cons_nth_drop_Suc [symmetric])
    show ?thesis
    proof (cases "length_read s ?W h")
      case None
      then have hn: "hookEvents s ?W h = None"
        by (rule length_read_None)
      from None True "1.IH"(1) obtain ds where
        "subseq ds ?rest" and "dispatched s (state_of (wired_loop guard self h p (Suc w) s)) ds"
        by auto
      then have "\<exists>ds. subseq ds (listeners s ?W h @ ?rest) \<and>
          dispatched s (state_of (wired_loop guard self h p (Suc w) s)) ds"
        by (auto simp: listeners_None [OF hn])
      then show ?thesis
        by (simp add: wired_loop_cases(2) [OF True None] split)
    next
      case (Some n)
      let ?inner = "call_each_live guard (Emitter ?W) ?W h p 0 s"
      obtain ds1 where ds1: "subseq ds1 (listeners s ?W h)" and dd1: "dispatched s (state_of ?inner) ds1"
        using call_each_live_dispatched [of "Emitter ?W" 0 s ?W h guard p]
        by (auto simp: listeners_def)
      have r: "removes_only s (state_of ?inner)"
        by (rule call_each_live_removes_only)
      show ?thesis
      proof (cases ?inner)
        case (Throw err s')
        from ds1 have "subseq ds1 (listeners s ?W h @ ?rest)"
          by (rule subseq_rev_drop_many)
        with dd1 Throw have "\<exists>ds. subseq ds (listeners s ?W h @ ?rest) \<and> dispatched s s' ds"
          by auto
        then show ?thesis
          by (simp add: wired_loop_cases(3) [OF True Some Throw] split)
      next
        case (Return u s')
        let ?r = "wired_loop guard self h p (Suc w) s'"
        from True Some Return "1.IH"(2) obtain ds2 where
          ds2: "subseq ds2 (concat (map (\<lambda>w. listeners s' w h)
                  (drop (Suc w) (wiredEmitters (emitters s' self)))))"
          and dd2: "dispatched s' (state_of ?r) ds2"
          by auto
        from r Return have "removes_only s s'" by simp
        then have "subseq (concat (map (\<lambda>w. listeners s' w h)
                  (drop (Suc w) (wiredEmitters (emitters s' self))))) ?rest"
          by (rule subseq_wired_listeners)
        with ds2 have "subseq ds2 ?rest" by (rule subseq_order.trans)
        with ds1 have "subseq (ds1 @ ds2) (listeners s ?W h @ ?rest)"
          by (rule list_emb_append_mono)
        moreover from dd1 Return dd2 have "dispatched s (state_of ?r) (ds1 @ ds2)"
          by (intro dispatched_trans [of s s']) simp_all
        ultimately have "\<exists>ds. subseq ds (listeners s ?W h @ ?rest) \<and> dispatched s (state_of ?r) ds"
          by blast
        then show ?thesis
          by (simp add: wired_loop_cases(4) [OF True Some Return] split)
      qed
    qed
  qed
qed

lemma fire_from_cases:
  "length_read s self h = None \<Longrightarrow> wired_loop True self h p 0 s = Throw err s2 \<Longrightarrow>
     fire_from self h p s = Throw err s2"
  "length_read s self h = None \<Longrightarrow> wired_loop True self h p 0 s = Return u s2 \<Longrightarrow>
     fire_from self h p s = Return self s2"
  "length_read s self h = Some len \<Longrightarrow>
     call_each_cached (Emitter self) self h p len 0 s = Throw err s1 \<Longrightarrow>
     fire_from self h p s = Throw err s1"
  "length_read s self h = Some len \<Longrightarrow>
     call_each_cached (Emitter self) self h p len 0 s = Return u s1 \<Longrightarrow>
     wired_loop True self h p 0 s1 = Throw err s2 \<Longrightarrow>
     fire_from self h p s = Throw err s2"
  "length_read s self h = Some len \<Longrightarrow>
     call_each_cached (Emitter self) self h p len 0 s = Return u s1 \<Longrightarrow>
     wired_loop True self h p 0 s1 = Return u' s2 \<Longrightarrow>
     fire_from self h p s = Return self s2"
  by (simp_all add: fire_from_def)

lemma fire_from_dispatched:
  "\<exists>ds. subseq ds (audience s self h) \<and> dispatched s (state_of (fire_from self h p s)) ds"
proof -
  let ?wired = "\<lambda>s. concat (map (\<lambda>w. listeners s w h) (wiredEmitters (emitters s self)))"
  have wired: "\<exists>ds. subseq ds (?wired s1) \<and> dispatched s1 (state_of (wired_loop True self h p 0 s1)) ds"
    for s1
    using wired_loop_dispatched [of s1 h 0 self True p] by simp
  have state: "state_of (fire_from self h p s) =
      state_of (wired_loop True self h p 0 s1)"
    if "(case length_read s self h of
              None \<Rightarrow> Return () s
            | Some len \<Rightarrow> call_each_cached (Emitter self) self h p len 0 s) = Return u s1"
    for u s1
    using that by (simp add: fire_from_def split: result.splits)
  show ?thesis
  proof (cases "length_read s self h")
    case None
    then have hn: "hookEvents s self h = None"
      by (rule length_read_None)
    from wired [of s] obtain ds where "subseq ds (?wired s)"
      and "dispatched s (state_of (wired_loop True self h p 0 s)) ds"
      by blast
    moreover have "state_of (fire_from self h p s) = state_of (wired_loop True self h p 0 s)"
      using None by (intro state [of "()"]) simp
    ultimately show ?thesis
      by (auto simp: audience_def listeners_None [OF hn])
  next
    case (Some len)
    let ?local = "call_each_cached (Emitter self) self h p len 0 s"
    obtain ds1 where ds1: "subseq ds1 (listeners s self h)" and dd1: "dispatched s (state_of ?local) ds1"
      using call_each_cached_dispatched [of "Emitter self" 0 s self h p len]
      by (auto simp: listeners_def)
    have r: "removes_only s (state_of ?local)"
      by (rule call_each_cached_removes_only)
    show ?thesis
    proof (cases ?local)
      case (Throw err s1)
      from ds1 have "subseq ds1 (audience s self h)"
        unfolding audience_def by (rule subseq_rev_drop_many)
      with dd1 Throw show ?thesis
        by (auto simp: fire_from_cases(3) [OF Some Throw])
    next
      case (Return u s1)
      from wired [of s1] obtain ds2 where ds2: "subseq ds2 (?wired s1)"
        and dd2: "dispatched s1 (state_of (wired_loop True self h p 0 s1)) ds2"
        by blast
      from r Return have "removes_only s s1" by simp
      then have "subseq (?wired s1) (?wired s)"
        using subseq_wired_listeners [of s s1 h 0 self] by simp
      with ds2 have "subseq ds2 (?wired s)" by (rule subseq_order.trans)
      with ds1 have "subseq (ds1 @ ds2) (audience s self h)"
        unfolding audience_def by (rule list_emb_append_mono)
      moreover from dd1 Return dd2
      have "dispatched s (state_of (wired_loop True self h p 0 s1)) (ds1 @ ds2)"
        by (intro dispatched_trans [of s s1]) simp_all
      moreover have "state_of (fire_from self h p s) = state_of (wired_loop True self h p 0 s1)"
        using Some Return by (intro state [of u]) simp
      ultimately show ?thesis by auto
    qed
  qed
qed


subsection \<open>Dispatch to listeners that are functions of the user\<close>

lemma dispatch_user_function:
  assumes "user_function cb"
  shows "\<exists>s'. dispatch cb c p s = Return () s' \<and> emitters s' = emitters s"
  using assms
  by (cases cb) (simp_all add: dispatch_def falsy_def spread_def assign_all_def record_call_def)

lemma same_emitters:
  assumes "emitters s' = emitters s"
  shows "hookEvents s' = hookEvents s" and "callbacks_of s' = callbacks_of s"
    and "listeners s' = listeners s" and "audience s' = audience s"
proof -
  show h: "hookEvents s' = hookEvents s"
    using assms by (simp add: hookEvents_def fun_eq_iff)
  then show c: "callbacks_of s' = callbacks_of s"
    by (simp add: callbacks_of_def fun_eq_iff)
  then show l: "listeners s' = listeners s"
    by (simp add: listeners_def fun_eq_iff)
  then show "audience s' = audience s"
    using assms by (simp add: audience_def fun_eq_iff)
qed

lemma call_each_cached_plain:
  assumes "hookEvents s owner h = Some evs"
    and "\<forall>ev\<in>set (drop e evs). user_function (callback ev)"
  shows "\<exists>s'. call_each_cached c owner h p (length evs) e s = Return () s' \<and>
            emitters s' = emitters s \<and>
            dispatched s s' (map (Pair c) (drop e (callbacks_of s owner h)))"
  using assms
proof (induction "length evs - e" arbitrary: e s)
  case 0
  then have "\<not> e < length evs" by simp
  then show ?case
    using "0.prems"(1) by (simp add: call_each_cached_cases(1) dispatched_refl callbacks_of_def)
next
  case (Suc n)
  then have e: "e < length evs" by simp
  let ?cb = "callback (evs ! e)"
  from e have "evs ! e \<in> set (drop e evs)"
    by (metis Cons_nth_drop_Suc list.set_intros(1))
  with Suc.prems(2) have "user_function ?cb" by blast
  then obtain s1 where d: "dispatch ?cb c p s = Return () s1" and em: "emitters s1 = emitters s"
    using dispatch_user_function by blast
  have h1: "hookEvents s1 owner h = Some evs"
    using Suc.prems(1) by (simp add: same_emitters(1) [OF em])
  have rest: "\<forall>ev\<in>set (drop (Suc e) evs). user_function (callback ev)"
    using Suc.prems(2) set_drop_subset_set_drop [of e "Suc e" evs] by auto
  have "n = length evs - Suc e" using Suc.hyps(2) by simp
  from Suc.hyps(1) [OF this h1 rest] obtain s' where
    r: "call_each_cached c owner h p (length evs) (Suc e) s1 = Return () s'"
    and em': "emitters s' = emitters s1"
    and dd: "dispatched s1 s' (map (Pair c) (drop (Suc e) (callbacks_of s1 owner h)))"
    by blast
  have "dispatched s s1 [(c, ?cb)]"
    using dispatched_dispatch [of s ?cb c p] d by simp
  with dd have "dispatched s s' ([(c, ?cb)] @ map (Pair c) (drop (Suc e) (callbacks_of s owner h)))"
    by (intro dispatched_trans [of s s1]) (simp_all add: same_emitters(2) [OF em])
  then have "dispatched s s' (map (Pair c) (drop e (callbacks_of s owner h)))"
    by (simp add: drop_callbacks_of [OF Suc.prems(1) e])
  moreover have "call_each_cached c owner h p (length evs) e s = Return () s'"
    using r by (simp add: call_each_cached_cases(5) [OF e Suc.prems(1) e d])
  ultimately show ?case using em em' by simp
qed


lemma call_each_cached_throws:
  assumes "hookEvents s owner h = Some evs" and "i < length evs"
    and "falsy (callback (evs ! i))" and "e \<le> i"
    and "\<forall>j. e \<le> j \<and> j < i \<longrightarrow> user_function (callback (evs ! j))"
  shows "\<exists>s'. call_each_cached c owner h p (length evs) e s = Throw TypeError s' \<and>
            emitters s' = emitters s \<and>
            dispatched s s' (map (Pair c) (take (i - e) (drop e (callbacks_of s owner h))))"
  using assms
proof (induction "i - e" arbitrary: e s)
  case 0
  then have e: "e = i" by simp
  have "dispatch (callback (evs ! i)) c p s = Throw TypeError s"
    using "0.prems"(3) by (simp add: dispatch_def)
  then have "call_each_cached c owner h p (length evs) i s = Throw TypeError s"
    using "0.prems"(1,2) by (simp add: call_each_cached_cases(4))
  then show ?case
    by (simp add: e dispatched_refl)
next
  case (Suc n)
  then have e: "e < i" and el: "e < length evs" by simp_all
  let ?cb = "callback (evs ! e)"
  from e Suc.prems(5) have "user_function ?cb" by simp
  then obtain s1 where d: "dispatch ?cb c p s = Return () s1" and em: "emitters s1 = emitters s"
    using dispatch_user_function by blast
  have h1: "hookEvents s1 owner h = Some evs"
    using Suc.prems(1) by (simp add: same_emitters(1) [OF em])
  have n: "n = i - Suc e" using Suc.hyps(2) by simp
  have le: "Suc e \<le> i" using e by simp
  have rest: "\<forall>j. Suc e \<le> j \<and> j < i \<longrightarrow> user_function (callback (evs ! j))"
    using Suc.prems(5) by simp
  from Suc.hyps(1) [OF n h1 Suc.prems(2,3) le rest] obtain s' where
    r: "call_each_cached c owner h p (length evs) (Suc e) s1 = Throw TypeError s'"
    and em': "emitters s' = emitters s1"
    and dd: "dispatched s1 s'
        (map (Pair c) (take (i - Suc e) (drop (Suc e) (callbacks_of s1 owner h))))"
    by blast
  have "dispatched s s1 [(c, ?cb)]"
    using dispatched_dispatch [of s ?cb c p] d by simp
  with dd have "dispatched s s'
      ([(c, ?cb)] @ map (Pair c) (take (i - Suc e) (drop (Suc e) (callbacks_of s owner h))))"
    by (intro dispatched_trans [of s s1]) (simp_all add: same_emitters(2) [OF em])
  moreover have "take (i - e) (drop e (callbacks_of s owner h)) =
      ?cb # take (i - Suc e) (drop (Suc e) (callbacks_of s owner h))"
    using e by (simp add: drop_callbacks_of [OF Suc.prems(1) el] take_Cons')
  ultimately have "dispatched s s' (map (Pair c) (take (i - e) (drop e (callbacks_of s owner h))))"
    by simp
  moreover have "call_each_cached c owner h p (length evs) e s = Throw TypeError s'"
    using r by (simp add: call_each_cached_cases(5) [OF el Suc.prems(1) el d])
  ultimately show ?case using em em' by simp
qed

lemma call_each_live_plain:
  assumes "hookEvents s owner h = Some evs"
    and "\<forall>ev\<in>set (drop e evs). user_function (callback ev) \<or> falsy (callback ev)"
  shows "\<exists>s'. call_each_live True c owner h p e s = Return () s' \<and>
            emitters s' = emitters s \<and>
            dispatched s s' (map (Pair c) (drop e (callbacks_of s owner h)))"
  using assms
proof (induction "length evs - e" arbitrary: e s)
  case 0
  then have "\<not> e < length evs" by simp
  then show ?case
    using "0.prems"(1) by (simp add: call_each_live_cases(2) dispatched_refl callbacks_of_def)
next
  case (Suc n)
  then have e: "e < length evs" by simp
  let ?cb = "callback (evs ! e)"
  from e have "evs ! e \<in> set (drop e evs)"
    by (metis Cons_nth_drop_Suc list.set_intros(1))
  with Suc.prems(2) have cb: "user_function ?cb \<or> falsy ?cb" by blast
  have rest: "\<forall>ev\<in>set (drop (Suc e) evs). user_function (callback ev) \<or> falsy (callback ev)"
    using Suc.prems(2) set_drop_subset_set_drop [of e "Suc e" evs] by auto
  have n: "n = length evs - Suc e" using Suc.hyps(2) by simp
  show ?case
  proof (cases "falsy ?cb")
    case True
    from Suc.hyps(1) [OF n Suc.prems(1) rest] obtain s' where
      r: "call_each_live True c owner h p (Suc e) s = Return () s'"
      and em': "emitters s' = emitters s"
      and dd: "dispatched s s' (map (Pair c) (drop (Suc e) (callbacks_of s owner h)))"
      by blast
    from dd have "dispatched s s' ((c, ?cb) # map (Pair c) (drop (Suc e) (callbacks_of s owner h)))"
      by (rule dispatched_falsy [OF True])
    then have "dispatched s s' (map (Pair c) (drop e (callbacks_of s owner h)))"
      by (simp add: drop_callbacks_of [OF Suc.prems(1) e])
    moreover have "call_each_live True c owner h p e s = Return () s'"
      using r True by (simp add: call_each_live_cases(3) [OF Suc.prems(1) e])
    ultimately show ?thesis using em' by simp
  next
    case False
    with cb have "user_function ?cb" by simp
    then obtain s1 where d: "dispatch ?cb c p s = Return () s1" and em: "emitters s1 = emitters s"
      using dispatch_user_function by blast
    have h1: "hookEvents s1 owner h = Some evs"
      using Suc.prems(1) by (simp add: same_emitters(1) [OF em])
    from Suc.hyps(1) [OF n h1 rest] obtain s' where
      r: "call_each_live True c owner h p (Suc e) s1 = Return () s'"
      and em': "emitters s' = emitters s1"
      and dd: "dispatched s1 s' (map (Pair c) (drop (Suc e) (callbacks_of s1 owner h)))"
      by blast
    have "dispatched s s1 [(c, ?cb)]"
      using dispatched_dispatch [of s ?cb c p] d by simp
    with dd have "dispatched s s' ([(c, ?cb)] @ map (Pair c) (drop (Suc e) (callbacks_of s owner h)))"
      by (intro dispatched_trans [of s s1]) (simp_all add: same_emitters(2) [OF em])
    then have "dispatched s s' (map (Pair c) (drop e (callbacks_of s owner h)))"
      by (simp add: drop_callbacks_of [OF Suc.prems(1) e])
    moreover have "call_each_live True c owner h p e s = Return () s'"
      using r False by (simp add: call_each_live_cases(5) [OF Suc.prems(1) e _ d])
    ultimately show ?thesis using em em' by simp
  qed
qed

lemma call_each_live_idle:
  assumes "hookEvents s owner h = None" and "\<not> throwing_hook h" and "length_read s owner h = Some n"
  shows "call_each_live guard c owner h p 0 s = Return () s"
  using assms
  by (cases "inherited h")
    (simp_all add: call_each_live_unregistered throwing_hook_def length_read_def)

lemma call_each_live_unlisted:
  assumes "hookEvents s owner h = None" and "throwing_hook h"
  shows "length_read s owner h \<noteq> None \<and>
         call_each_live guard c owner h p 0 s = Throw TypeError s"
  using assms
  by (cases "inherited h")
    (simp_all add: call_each_live_unregistered throwing_hook_def length_read_def)

lemma wired_loop_plain:
  assumes "\<forall>w\<in>set (drop w (wiredEmitters (emitters s self))).
             \<forall>cb\<in>set (callbacks_of s w h). user_function cb \<or> falsy cb"
    and "\<forall>w\<in>set (drop w (wiredEmitters (emitters s self))).
             hookEvents s w h = None \<longrightarrow> \<not> throwing_hook h"
  shows "\<exists>s'. wired_loop True self h p w s = Return () s' \<and>
            emitters s' = emitters s \<and>
            dispatched s s'
              (concat (map (\<lambda>w. listeners s w h) (drop w (wiredEmitters (emitters s self)))))"
  using assms
proof (induction "length (wiredEmitters (emitters s self)) - w" arbitrary: w s)
  case 0
  then have "\<not> w < length (wiredEmitters (emitters s self))" by simp
  then show ?case
    by (simp add: wired_loop_cases(1) dispatched_refl)
next
  case (Suc n)
  let ?ws = "wiredEmitters (emitters s self)"
  let ?W = "?ws ! w"
  let ?rest = "\<lambda>s. concat (map (\<lambda>w. listeners s w h) (drop (Suc w) (wiredEmitters (emitters s self))))"
  from Suc.hyps(2) have w: "w < length ?ws" by simp
  then have split: "concat (map (\<lambda>w. listeners s w h) (drop w ?ws)) = listeners s ?W h @ ?rest s"
    by (simp add: Cons_nth_drop_Suc [symmetric])
  from w have Win: "?W \<in> set (drop w ?ws)"
    by (metis Cons_nth_drop_Suc list.set_intros(1))
  with Suc.prems(1) have W: "\<forall>cb\<in>set (callbacks_of s ?W h). user_function cb \<or> falsy cb" by blast
  from Win Suc.prems(2) have Wn: "hookEvents s ?W h = None \<longrightarrow> \<not> throwing_hook h" by blast
  have rest: "\<forall>w\<in>set (drop (Suc w) ?ws). \<forall>cb\<in>set (callbacks_of s w h). user_function cb \<or> falsy cb"
    using Suc.prems(1) set_drop_subset_set_drop [of w "Suc w" ?ws] by auto
  have restn: "\<forall>w\<in>set (drop (Suc w) ?ws). hookEvents s w h = None \<longrightarrow> \<not> throwing_hook h"
    using Suc.prems(2) set_drop_subset_set_drop [of w "Suc w" ?ws] by auto
  have step: "\<exists>s'. wired_loop True self h p (Suc w) s1 = Return () s' \<and>
            emitters s' = emitters s \<and> dispatched s1 s' (?rest s)"
    if em: "emitters s1 = emitters s" for s1
  proof -
    have "n = length (wiredEmitters (emitters s1 self)) - Suc w"
      using Suc.hyps(2) by (simp add: em)
    moreover have "\<forall>w\<in>set (drop (Suc w) (wiredEmitters (emitters s1 self))).
        \<forall>cb\<in>set (callbacks_of s1 w h). user_function cb \<or> falsy cb"
      using rest by (simp add: em same_emitters(2) [OF em])
    moreover have "\<forall>w\<in>set (drop (Suc w) (wiredEmitters (emitters s1 self))).
        hookEvents s1 w h = None \<longrightarrow> \<not> throwing_hook h"
      using restn by (simp add: em same_emitters(1) [OF em])
    ultimately have "\<exists>s'. wired_loop True self h p (Suc w) s1 = Return () s' \<and>
            emitters s' = emitters s1 \<and> dispatched s1 s' (?rest s1)"
      by (rule Suc.hyps(1))
    then show ?thesis
      by (simp add: em same_emitters(3) [OF em])
  qed
  show ?case
  proof (cases "length_read s ?W h")
    case None
    then have hn: "hookEvents s ?W h = None"
      by (rule length_read_None)
    from step [of s] obtain s' where
      r: "wired_loop True self h p (Suc w) s = Return () s'" and em': "emitters s' = emitters s"
      and dd: "dispatched s s' (?rest s)"
      by auto
    have "wired_loop True self h p w s = Return () s'"
      using r by (simp add: wired_loop_cases(2) [OF w None])
    with em' dd show ?thesis
      by (simp add: split listeners_None [OF hn])
  next
    case (Some m)
    have "\<exists>s1. call_each_live True (Emitter ?W) ?W h p 0 s = Return () s1 \<and>
        emitters s1 = emitters s \<and> dispatched s s1 (listeners s ?W h)"
    proof (cases "hookEvents s ?W h")
      case None
      with Wn have "\<not> throwing_hook h" by simp
      with None have "call_each_live True (Emitter ?W) ?W h p 0 s = Return () s"
        using Some by (rule call_each_live_idle)
      then show ?thesis
        by (simp add: listeners_None [OF None] dispatched_refl)
    next
      case (Some evs)
      have "\<forall>ev\<in>set (drop 0 evs). user_function (callback ev) \<or> falsy (callback ev)"
        using W Some by (simp add: callbacks_of_def)
      from call_each_live_plain [OF Some this, of "Emitter ?W" p] show ?thesis
        by (auto simp: listeners_def)
    qed
    then obtain s1 where
      i: "call_each_live True (Emitter ?W) ?W h p 0 s = Return () s1"
      and em: "emitters s1 = emitters s"
      and dd1: "dispatched s s1 (listeners s ?W h)"
      by blast
    from step [OF em] obtain s' where
      r: "wired_loop True self h p (Suc w) s1 = Return () s'" and em': "emitters s' = emitters s"
      and dd2: "dispatched s1 s' (?rest s)"
      by auto
    have "wired_loop True self h p w s = Return () s'"
      using r by (simp add: wired_loop_cases(4) [OF w Some i])
    moreover from dd1 dd2 have "dispatched s s' (listeners s ?W h @ ?rest s)"
      by (rule dispatched_trans)
    ultimately show ?thesis using em' by (simp add: split)
  qed
qed

lemma wired_loop_unlisted:
  assumes "\<forall>w\<in>set (drop w (wiredEmitters (emitters s self))).
             \<forall>cb\<in>set (callbacks_of s w h). user_function cb \<or> falsy cb"
    and "throwing_hook h"
    and "\<exists>w\<in>set (drop w (wiredEmitters (emitters s self))). hookEvents s w h = None"
  shows "\<exists>s'. wired_loop True self h p w s = Throw TypeError s' \<and> emitters s' = emitters s"
  using assms(1,3)
proof (induction "length (wiredEmitters (emitters s self)) - w" arbitrary: w s)
  case 0
  then have "drop w (wiredEmitters (emitters s self)) = []" by simp
  with "0.prems"(2) show ?case by simp
next
  case (Suc n)
  let ?ws = "wiredEmitters (emitters s self)"
  let ?W = "?ws ! w"
  from Suc.hyps(2) have w: "w < length ?ws" by simp
  then have d: "drop w ?ws = ?W # drop (Suc w) ?ws"
    by (simp add: Cons_nth_drop_Suc)
  show ?case
  proof (cases "hookEvents s ?W h")
    case None
    from call_each_live_unlisted [OF None assms(2), of True "Emitter ?W" p]
    obtain m where l: "length_read s ?W h = Some m"
      and i: "call_each_live True (Emitter ?W) ?W h p 0 s = Throw TypeError s"
      by auto
    have "wired_loop True self h p w s = Throw TypeError s"
      by (rule wired_loop_cases(3) [OF w l i])
    then show ?thesis by simp
  next
    case (Some evs)
    have W: "\<forall>ev\<in>set (drop 0 evs). user_function (callback ev) \<or> falsy (callback ev)"
      using Suc.prems(1) Some d by (simp add: callbacks_of_def)
    from call_each_live_plain [OF Some W, of "Emitter ?W" p] obtain s1 where
      i: "call_each_live True (Emitter ?W) ?W h p 0 s = Return () s1"
      and em: "emitters s1 = emitters s"
      by auto
    have "n = length (wiredEmitters (emitters s1 self)) - Suc w"
      using Suc.hyps(2) by (simp add: em)
    moreover have "\<forall>w\<in>set (drop (Suc w) (wiredEmitters (emitters s1 self))).
        \<forall>cb\<in>set (callbacks_of s1 w h). user_function cb \<or> falsy cb"
      using Suc.prems(1) d by (simp add: em same_emitters(2) [OF em])
    moreover have "\<exists>w\<in>set (drop (Suc w) (wiredEmitters (emitters s1 self))).
        hookEvents s1 w h = None"
      using Suc.prems(2) d Some by (simp add: em same_emitters(1) [OF em])
    ultimately have "\<exists>s'. wired_loop True self h p (Suc w) s1 = Throw TypeError s' \<and>
        emitters s' = emitters s1"
      by (rule Suc.hyps(1))
    then obtain s' where r: "wired_loop True self h p (Suc w) s1 = Throw TypeError s'"
      and em': "emitters s' = emitters s1"
      by blast
    have "wired_loop True self h p w s = Throw TypeError s'"
      using r by (simp add: wired_loop_cases(4) [OF w length_read_Some [OF Some] i])
    with em em' show ?thesis by simp
  qed
qed

lemma local_loop_plain:
  assumes "\<forall>cb\<in>set (callbacks_of s self h). user_function cb"
    and "length_read s self h = Some len"
    and "hookEvents s self h = None \<longrightarrow> \<not> throwing_hook h"
  shows "\<exists>s1. call_each_cached (Emitter self) self h p len 0 s = Return () s1 \<and>
        emitters s1 = emitters s \<and> dispatched s s1 (listeners s self h)"
proof (cases "hookEvents s self h")
  case None
  with assms(2,3) have "len = 0"
    by (cases "inherited h") (simp_all add: length_read_def throwing_hook_def)
  then show ?thesis
    by (simp add: call_each_cached_cases(1) listeners_None [OF None] dispatched_refl)
next
  case (Some evs)
  with assms(2) have len: "len = length evs" by (simp add: length_read_def)
  have "\<forall>ev\<in>set (drop 0 evs). user_function (callback ev)"
    using assms(1) Some by (simp add: callbacks_of_def)
  from call_each_cached_plain [OF Some this, of "Emitter self" p] show ?thesis
    by (auto simp: listeners_def len)
qed

lemma fire_from_plain:
  assumes "\<forall>cb\<in>set (callbacks_of s self h). user_function cb"
    and "\<forall>w\<in>set (wiredEmitters (emitters s self)).
           \<forall>cb\<in>set (callbacks_of s w h). user_function cb \<or> falsy cb"
    and "\<not> unlisted_throws s self h"
  shows "\<exists>s'. fire_from self h p s = Return self s' \<and> emitters s' = emitters s \<and>
            dispatched s s' (audience s self h)"
proof -
  let ?wired = "concat (map (\<lambda>w. listeners s w h) (wiredEmitters (emitters s self)))"
  from assms(3) have own: "hookEvents s self h = None \<longrightarrow> \<not> throwing_hook h"
    and others: "\<forall>w\<in>set (wiredEmitters (emitters s self)).
        hookEvents s w h = None \<longrightarrow> \<not> throwing_hook h"
    by (auto simp: unlisted_throws_def)
  have wired: "\<exists>s'. wired_loop True self h p 0 s1 = Return () s' \<and>
            emitters s' = emitters s \<and> dispatched s1 s' ?wired"
    if em: "emitters s1 = emitters s" for s1
  proof -
    have "\<forall>w\<in>set (drop 0 (wiredEmitters (emitters s1 self))).
        \<forall>cb\<in>set (callbacks_of s1 w h). user_function cb \<or> falsy cb"
      using assms(2) by (simp add: em same_emitters(2) [OF em])
    moreover have "\<forall>w\<in>set (drop 0 (wiredEmitters (emitters s1 self))).
        hookEvents s1 w h = None \<longrightarrow> \<not> throwing_hook h"
      using others by (simp add: em same_emitters(1) [OF em])
    ultimately have "\<exists>s'. wired_loop True self h p 0 s1 = Return () s' \<and>
            emitters s' = emitters s1 \<and>
            dispatched s1 s'
              (concat (map (\<lambda>w. listeners s1 w h) (drop 0 (wiredEmitters (emitters s1 self)))))"
      by (rule wired_loop_plain)
    then show ?thesis
      by (simp add: em same_emitters(3) [OF em])
  qed
  show ?thesis
  proof (cases "length_read s self h")
    case None
    then have hn: "hookEvents s self h = None"
      by (rule length_read_None)
    from wired [of s] obtain s' where
      r: "wired_loop True self h p 0 s = Return () s'" and em': "emitters s' = emitters s"
      and dd: "dispatched s s' ?wired"
      by auto
    have "fire_from self h p s = Return self s'"
      by (rule fire_from_cases(2) [OF None r])
    with em' dd show ?thesis
      by (simp add: audience_def listeners_None [OF hn])
  next
    case (Some len)
    from local_loop_plain [OF assms(1) Some own, of p] obtain s1 where
      l: "call_each_cached (Emitter self) self h p len 0 s = Return () s1"
      and em: "emitters s1 = emitters s"
      and dd1: "dispatched s s1 (listeners s self h)"
      by blast
    from wired [OF em] obtain s' where
      r: "wired_loop True self h p 0 s1 = Return () s'" and em': "emitters s' = emitters s"
      and dd2: "dispatched s1 s' ?wired"
      by auto
    have "fire_from self h p s = Return self s'"
      by (rule fire_from_cases(5) [OF Some l r])
    moreover from dd1 dd2 have "dispatched s s' (listeners s self h @ ?wired)"
      by (rule dispatched_trans)
    ultimately show ?thesis using em' by (simp add: audience_def)
  qed
qed

lemma fire_from_unlisted:
  assumes "\<forall>cb\<in>set (callbacks_of s self h). user_function cb"
    and "\<forall>w\<in>set (wiredEmitters (emitters s self)).
           \<forall>cb\<in>set (callbacks_of s w h). user_function cb \<or> falsy cb"
    and "unlisted_throws s self h"
  shows "\<exists>s'. fire_from self h p s = Throw TypeError s' \<and> emitters s' = emitters s"
proof (cases "hookEvents s self h")
  case None
  from assms(3) have t: "throwing_hook h" by (simp add: unlisted_throws_def)
  then obtain len where i: "inherited h = Some len" and l: "0 < turns len"
    by (auto simp: throwing_hook_def split: option.splits)
  have "length_read s self h = Some (turns len)"
    using None i by (simp add: length_read_def)
  moreover have "call_each_cached (Emitter self) self h p (turns len) 0 s = Throw TypeError s"
    using None l by (simp add: call_each_cached_cases(2))
  ultimately have "fire_from self h p s = Throw TypeError s"
    by (rule fire_from_cases(3))
  then show ?thesis by simp
next
  case (Some evs)
  with assms(3) have t: "throwing_hook h"
    and ex: "\<exists>w\<in>set (wiredEmitters (emitters s self)). hookEvents s w h = None"
    by (auto simp: unlisted_throws_def)
  have len: "length_read s self h = Some (length evs)"
    using Some by (rule length_read_Some)
  have "hookEvents s self h = None \<longrightarrow> \<not> throwing_hook h"
    using Some by simp
  from local_loop_plain [OF assms(1) len this, of p] obtain s1 where
    l: "call_each_cached (Emitter self) self h p (length evs) 0 s = Return () s1"
    and em: "emitters s1 = emitters s"
    by blast
  have "\<forall>w\<in>set (drop 0 (wiredEmitters (emitters s1 self))).
        \<forall>cb\<in>set (callbacks_of s1 w h). user_function cb \<or> falsy cb"
    using assms(2) by (simp add: em same_emitters(2) [OF em])
  moreover have "\<exists>w\<in>set (drop 0 (wiredEmitters (emitters s1 self))). hookEvents s1 w h = None"
    using ex by (simp add: em same_emitters(1) [OF em])
  ultimately have "\<exists>s'. wired_loop True self h p 0 s1 = Throw TypeError s' \<and>
      emitters s' = emitters s1"
    using t by (intro wired_loop_unlisted)
  then obtain s' where r: "wired_loop True self h p 0 s1 = Throw TypeError s'"
    and em': "emitters s' = emitters s1"
    by blast
  have "fire_from self h p s = Throw TypeError s'"
    by (rule fire_from_cases(4) [OF len l r])
  with em em' show ?thesis by simp
qed


subsection \<open>\<open>fire\<close>: who is called, in which order, and missing callbacks\<close>

lemma fire_via_fire_from:
  obtains p s0 where "fire A H given s = fire_from A H p s0"
    and "emitters s0 = emitters s" and "calls s0 = calls s"
proof -
  obtain p s0 where d: "default_params given s = (p, s0)" by (cases "default_params given s")
  then have "emitters s0 = emitters s" and "calls s0 = calls s"
    by (auto simp: default_params_def split: option.splits)
  moreover have "fire A H given s = fire_from A H p s0"
    by (simp add: fire_def d)
  ultimately show ?thesis using that by blast
qed

lemma dispatched_same_calls:
  "calls s0 = calls s \<Longrightarrow> dispatched s0 s' ds = dispatched s s' ds"
  by (simp add: dispatched_def)

lemma fire_dispatched:
  "\<exists>ds. subseq ds (audience s A H) \<and> dispatched s (state_of (fire A H given s)) ds"
proof -
  obtain p s0 where f: "fire A H given s = fire_from A H p s0"
    and em: "emitters s0 = emitters s" and c: "calls s0 = calls s"
    by (rule fire_via_fire_from)
  from fire_from_dispatched [of s0 A H p] show ?thesis
    by (simp add: f same_emitters(4) [OF em] dispatched_same_calls [OF c])
qed

lemma same_emitters_unlisted:
  "emitters s' = emitters s \<Longrightarrow> unlisted_throws s' A h = unlisted_throws s A h"
  by (simp add: unlisted_throws_def hookEvents_def)

lemma fire_plain:
  assumes "\<forall>cb\<in>set (callbacks_of s A H). user_function cb"
    and "\<forall>w\<in>set (wiredEmitters (emitters s A)).
           \<forall>cb\<in>set (callbacks_of s w H). user_function cb \<or> falsy cb"
    and "\<not> unlisted_throws s A H"
  shows "\<exists>s'. fire A H given s = Return A s' \<and> emitters s' = emitters s \<and>
            dispatched s s' (audience s A H)"
proof -
  obtain p s0 where f: "fire A H given s = fire_from A H p s0"
    and em: "emitters s0 = emitters s" and c: "calls s0 = calls s"
    by (rule fire_via_fire_from)
  have "\<forall>cb\<in>set (callbacks_of s0 A H). user_function cb"
    and "\<forall>w\<in>set (wiredEmitters (emitters s0 A)).
           \<forall>cb\<in>set (callbacks_of s0 w H). user_function cb \<or> falsy cb"
    and "\<not> unlisted_throws s0 A H"
    using assms by (simp_all add: em same_emitters(2) [OF em] same_emitters_unlisted [OF em])
  from fire_from_plain [OF this, of p] show ?thesis
    by (simp add: f em same_emitters(4) [OF em] dispatched_same_calls [OF c])
qed

lemma fire_unlisted:
  assumes "\<forall>cb\<in>set (callbacks_of s A H). user_function cb"
    and "\<forall>w\<in>set (wiredEmitters (emitters s A)).
           \<forall>cb\<in>set (callbacks_of s w H). user_function cb \<or> falsy cb"
    and "unlisted_throws s A H"
  shows "\<exists>s'. fire A H given s = Throw TypeError s' \<and> emitters s' = emitters s"
proof -
  obtain p s0 where f: "fire A H given s = fire_from A H p s0"
    and em: "emitters s0 = emitters s" and c: "calls s0 = calls s"
    by (rule fire_via_fire_from)
  have "\<forall>cb\<in>set (callbacks_of s0 A H). user_function cb"
    and "\<forall>w\<in>set (wiredEmitters (emitters s0 A)).
           \<forall>cb\<in>set (callbacks_of s0 w H). user_function cb \<or> falsy cb"
    and "unlisted_throws s0 A H"
    using assms by (simp_all add: em same_emitters(2) [OF em] same_emitters_unlisted [OF em])
  from fire_from_unlisted [OF this, of p] show ?thesis
    by (simp add: f em)
qed

lemma set_audience:
  "(c, cb) \<in> set (audience s A H) \<longleftrightarrow>
     (\<exists>w. c = Emitter w \<and> (w = A \<or> w \<in> set (wiredEmitters (emitters s A))) \<and>
          cb \<in> set (callbacks_of s w H))"
  by (auto simp: audience_def listeners_def)

lemma set_calls_of:
  "x \<in> set (calls_of ds) \<longleftrightarrow> (\<exists>cb. (fst x, cb) \<in> set ds \<and> snd x \<in> set (invoked cb))"
  by (cases x) (auto simp: calls_of_def)

lemma dispatched_calls_from:
  assumes "dispatched s s' ds" and "subseq ds (audience s A H)"
    and "x \<in> set (made s s')"
  shows "\<exists>w cb. this x = Emitter w \<and> (w = A \<or> w \<in> set (wiredEmitters (emitters s A))) \<and>
           cb \<in> set (callbacks_of s w H) \<and> callee x \<in> set (invoked cb)"
proof -
  from assms(1) obtain new where n: "calls s' = calls s @ new"
    and m: "map (\<lambda>x. (this x, callee x)) new = calls_of ds"
    unfolding dispatched_def by blast
  from n assms(3) have "x \<in> set new" by (simp add: made_def)
  then have "(this x, callee x) \<in> set (map (\<lambda>x. (this x, callee x)) new)" by force
  with m have "(this x, callee x) \<in> set (calls_of ds)" by simp
  then obtain cb where cb: "(this x, cb) \<in> set ds" and i: "callee x \<in> set (invoked cb)"
    by (auto simp: set_calls_of)
  from assms(2) cb have "(this x, cb) \<in> set (audience s A H)"
    by (auto elim: list_emb_set)
  with i show ?thesis by (auto simp: set_audience)
qed

lemma dispatched_made:
  "dispatched s s' ds \<Longrightarrow> map (\<lambda>x. (this x, callee x)) (made s s') = calls_of ds"
  by (auto simp: dispatched_def made_def)

lemma calls_of_user_functions:
  "\<forall>x\<in>set ds. user_function (snd x) \<Longrightarrow> calls_of ds = ds"
proof (induction ds)
  case Nil
  then show ?case by (simp add: calls_of_def)
next
  case (Cons d ds)
  obtain c cb where d: "d = (c, cb)" by (cases d)
  with Cons.prems obtain i ws where "cb = Fn i ws" by (cases cb) auto
  with Cons d show ?case by (simp add: calls_of_def)
qed

text \<open>
  Who can be called.  Every call made during \<open>A.fire(H)\<close> has for \<open>this\<close> an
  emitter \<open>w\<close> that is \<open>A\<close> or an element of \<open>A.wiredEmitters\<close>, and calls a
  callback that \<open>w\<close> held for \<open>H\<close> when the \<open>fire\<close> began, or the callback
  that such a closure of \<open>once\<close> wraps: the emitters wired to the wired emitters are
  not visited, and neither is an emitter that has wired \<open>A\<close>, unless they stand in
  \<open>A.wiredEmitters\<close> themselves.
\<close>

lemma fire_calls_from_audience:
  assumes "x \<in> set (made s (state_of (fire A H given s)))"
  shows "\<exists>w cb. this x = Emitter w \<and> (w = A \<or> w \<in> set (wiredEmitters (emitters s A))) \<and>
             cb \<in> set (callbacks_of s w H) \<and> callee x \<in> set (invoked cb)"
proof -
  obtain ds where "subseq ds (audience s A H)" and "dispatched s (state_of (fire A H given s)) ds"
    using fire_dispatched by blast
  then show ?thesis
    using assms
    by (intro dispatched_calls_from [where s' = "state_of (fire A H given s)" and ds = ds])
qed

text \<open>
  The dispatch has no handler: what a user function throws leaves \<open>fire\<close>, and the
  listeners behind it are not called.
\<close>

lemma fire_aborted_by_throwing_listener:
  "callbacks_of throwing_listener 0 ''x'' = [Throwing 1 [], Fn 2 []] \<and>
   thrown (fire 0 ''x'' None throwing_listener) = Some (Raised 1) \<and>
   map callee (made throwing_listener (state_of (fire 0 ''x'' None throwing_listener))) =
     [Throwing 1 []]"
  by code_simp

text \<open>
  Claim C5, at a concrete input.  Emitter \<open>0\<close> has two listeners for \<open>x\<close>:
  \<open>f1\<close>, registered by \<open>once\<close>, then \<open>f2\<close>, registered by \<open>on\<close>.
  \<open>e0.fire('x')\<close> calls the closure of \<open>once\<close> and, through it, \<open>f1\<close>; the
  closure removes its event from the array that the loop is walking, so the loop finds
  nothing at the index of \<open>f2\<close> and throws a TypeError: \<open>f2\<close> is registered on
  the emitter that fires and is not called.  With \<open>f1\<close>, \<open>f2\<close>, \<open>f3\<close>
  registered by \<open>once\<close>, \<open>on\<close>, \<open>on\<close> and the \<open>fire\<close> coming through
  the wired emitter \<open>1\<close>, the call returns, and has called \<open>f1\<close> and \<open>f3\<close>
  and not \<open>f2\<close>.
\<close>

theorem fire_skips_listener_behind_once:
  "callbacks_of once_then_on 0 ''x'' = [OneTimeCallback 0 ''x'' (Fn 1 []), Fn 2 []] \<and>
   map callee (made once_then_on (state_of (fire 0 ''x'' None once_then_on))) =
     [OneTimeCallback 0 ''x'' (Fn 1 []), Fn 1 []] \<and>
   times_called (Fn 2 []) (state_of (fire 0 ''x'' None once_then_on)) = 0 \<and>
   thrown (fire 0 ''x'' None once_then_on) = Some TypeError \<and>
   wiredEmitters (emitters once_on_on_wired 1) = [0] \<and>
   callbacks_of once_on_on_wired 0 ''x'' = [OneTimeCallback 0 ''x'' (Fn 1 []), Fn 2 [], Fn 3 []] \<and>
   map callee (filter (\<lambda>c. site c = Dispatch)
     (made once_on_on_wired (state_of (fire 1 ''x'' None once_on_on_wired)))) =
     [OneTimeCallback 0 ''x'' (Fn 1 []), Fn 3 []] \<and>
   times_called (Fn 2 []) (state_of (fire 1 ''x'' None once_on_on_wired)) = 0 \<and>
   thrown (fire 1 ''x'' None once_on_on_wired) = None"
  by code_simp








lemma calls_of_filter_falsy:
  "calls_of (filter (\<lambda>x. \<not> falsy (snd x)) ds) = calls_of ds"
  by (induction ds) (auto simp: calls_of_def falsy_def)

lemma dispatched_filter_falsy:
  "dispatched s s' (filter (\<lambda>x. \<not> falsy (snd x)) ds) = dispatched s s' ds"
  by (simp add: dispatched_def calls_of_filter_falsy)

lemma fire_throws:
  assumes "hookEvents s A H = Some evs" and "i < length evs" and "falsy (callback (evs ! i))"
    and "\<forall>j<i. user_function (callback (evs ! j))"
  shows "\<exists>s'. fire A H given s = Throw TypeError s' \<and> emitters s' = emitters s \<and>
            dispatched s s' (take i (listeners s A H))"
proof -
  obtain p s0 where f: "fire A H given s = fire_from A H p s0"
    and em: "emitters s0 = emitters s" and c: "calls s0 = calls s"
    by (rule fire_via_fire_from)
  have h0: "hookEvents s0 A H = Some evs"
    using assms(1) by (simp add: same_emitters(1) [OF em])
  have "\<forall>j. 0 \<le> j \<and> j < i \<longrightarrow> user_function (callback (evs ! j))"
    using assms(4) by simp
  from call_each_cached_throws [OF h0 assms(2,3) _ this, of "Emitter A" p] obtain s' where
    l: "call_each_cached (Emitter A) A H p (length evs) 0 s0 = Throw TypeError s'"
    and em': "emitters s' = emitters s0"
    and d: "dispatched s0 s' (map (Pair (Emitter A)) (take i (callbacks_of s0 A H)))"
    by auto
  have "fire_from A H p s0 = Throw TypeError s'"
    by (rule fire_from_cases(3) [OF length_read_Some [OF h0] l])
  moreover have "dispatched s s' (take i (listeners s A H))"
    using d by (simp add: listeners_def take_map same_emitters(2) [OF em]
        dispatched_same_calls [OF c])
  ultimately show ?thesis using f em em' by simp
qed

text \<open>
  Claim C10.  In the loop over the events of a wired emitter, an event whose callback
  is \<open>null\<close> or \<open>undefined\<close> is stepped over: the loop goes on with the next
  index, in the same state.  In the loop over the emitter's own events there is no such
  test, and the call throws a TypeError, in the same state.  For \<open>fire\<close> as a whole:
  when the own callbacks are functions of the user and those of the wired emitters are
  functions of the user or missing, \<open>fire\<close> returns and has called the listeners
  that are not missing (unless it comes to an emitter without a list at an inherited
  name where the loop throws, \<open>unlisted_throws\<close>: then it throws a TypeError); when
  the own list has a missing callback at index \<open>i\<close> behind functions of the user,
  \<open>fire\<close> throws a TypeError after calling these \<open>i\<close> listeners.
\<close>

theorem missing_callback_wired_skipped_local_thrown:
  "(hookEvents s W H = Some evs \<and> e < length evs \<and> falsy (callback (evs ! e)) \<longrightarrow>
      call_each_live True (Emitter W) W H p e s = call_each_live True (Emitter W) W H p (Suc e) s) \<and>
   (hookEvents s A H = Some evs \<and> e < length evs \<and> falsy (callback (evs ! e)) \<longrightarrow>
      call_each_cached (Emitter A) A H p (length evs) e s = Throw TypeError s) \<and>
   ((\<forall>cb\<in>set (callbacks_of s A H). user_function cb) \<and>
    (\<forall>w\<in>set (wiredEmitters (emitters s A)).
       \<forall>cb\<in>set (callbacks_of s w H). user_function cb \<or> falsy cb) \<longrightarrow>
      thrown (fire A H given s) = (if unlisted_throws s A H then Some TypeError else None) \<and>
      (\<not> unlisted_throws s A H \<longrightarrow>
         dispatched s (state_of (fire A H given s))
           (filter (\<lambda>x. \<not> falsy (snd x)) (audience s A H)))) \<and>
   (hookEvents s A H = Some evs \<and> i < length evs \<and> falsy (callback (evs ! i)) \<and>
    (\<forall>j<i. user_function (callback (evs ! j))) \<longrightarrow>
      thrown (fire A H given s) = Some TypeError \<and>
      dispatched s (state_of (fire A H given s)) (take i (listeners s A H)))"
proof (intro conjI impI)
  assume "hookEvents s W H = Some evs \<and> e < length evs \<and> falsy (callback (evs ! e))"
  then show "call_each_live True (Emitter W) W H p e s =
      call_each_live True (Emitter W) W H p (Suc e) s"
    by (intro call_each_live_cases(3) [of s W H evs]) auto
next
  assume a: "hookEvents s A H = Some evs \<and> e < length evs \<and> falsy (callback (evs ! e))"
  then have "dispatch (callback (evs ! e)) (Emitter A) p s = Throw TypeError s"
    by (simp add: dispatch_def)
  with a show "call_each_cached (Emitter A) A H p (length evs) e s = Throw TypeError s"
    by (intro call_each_cached_cases(4) [of e "length evs" s A H evs]) auto
next
  assume a: "(\<forall>cb\<in>set (callbacks_of s A H). user_function cb) \<and>
    (\<forall>w\<in>set (wiredEmitters (emitters s A)).
       \<forall>cb\<in>set (callbacks_of s w H). user_function cb \<or> falsy cb)"
  show "thrown (fire A H given s) = (if unlisted_throws s A H then Some TypeError else None)"
  proof (cases "unlisted_throws s A H")
    case True
    with a obtain s' where "fire A H given s = Throw TypeError s'"
      using fire_unlisted [of s A H given] by blast
    with True show ?thesis by simp
  next
    case False
    with a obtain s' where "fire A H given s = Return A s'"
      using fire_plain [of s A H given] by blast
    with False show ?thesis by simp
  qed
next
  assume a: "(\<forall>cb\<in>set (callbacks_of s A H). user_function cb) \<and>
    (\<forall>w\<in>set (wiredEmitters (emitters s A)).
       \<forall>cb\<in>set (callbacks_of s w H). user_function cb \<or> falsy cb)"
    and n: "\<not> unlisted_throws s A H"
  then obtain s' where f: "fire A H given s = Return A s'"
    and d: "dispatched s s' (audience s A H)"
    using fire_plain [of s A H given] by blast
  from f d show "dispatched s (state_of (fire A H given s))
        (filter (\<lambda>x. \<not> falsy (snd x)) (audience s A H))"
    by (simp add: dispatched_filter_falsy)
next
  assume a: "hookEvents s A H = Some evs \<and> i < length evs \<and> falsy (callback (evs ! i)) \<and>
    (\<forall>j<i. user_function (callback (evs ! j)))"
  then obtain s' where f: "fire A H given s = Throw TypeError s'"
    and d: "dispatched s s' (take i (listeners s A H))"
    using fire_throws [of s A H evs i given] by blast
  from f show "thrown (fire A H given s) = Some TypeError" by simp
  from f d show "dispatched s (state_of (fire A H given s)) (take i (listeners s A H))" by simp
qed

theorem missing_callback_wired_skipped_local_thrown_witness:
  "callbacks_of null_listener 0 ''x'' = [Fn 1 [], Null, Fn 2 []] \<and>
   wiredEmitters (emitters null_listener 4) = [0] \<and>
   callbacks_of null_listener 4 ''x'' = [] \<and> \<not> unlisted_throws null_listener 4 ''x'' \<and>
   thrown (fire 4 ''x'' None null_listener) = None \<and>
   map (\<lambda>x. (this x, callee x)) (made null_listener (state_of (fire 4 ''x'' None null_listener))) =
     [(Emitter 0, Fn 1 []), (Emitter 0, Fn 2 [])] \<and>
   thrown (fire 0 ''x'' None null_listener) = Some TypeError \<and>
   map (\<lambda>x. (this x, callee x)) (made null_listener (state_of (fire 0 ''x'' None null_listener))) =
     [(Emitter 0, Fn 1 [])] \<and>
   callbacks_of null_listener 4 ''constructor'' = [] \<and>
   callbacks_of null_listener 0 ''constructor'' = [] \<and>
   unlisted_throws null_listener 4 ''constructor'' \<and>
   thrown (fire 4 ''constructor'' None null_listener) = Some TypeError"
proof -
  let ?evs = "[Event ''x'' (Fn 1 []) 0 [], Event ''x'' Null 0 [], Event ''x'' (Fn 2 []) 0 []]"
  have h0: "hookEvents null_listener 0 ''x'' = Some ?evs" by code_simp
  have c0: "callbacks_of null_listener 0 ''x'' = [Fn 1 [], Null, Fn 2 []]" by code_simp
  have c4: "callbacks_of null_listener 4 ''x'' = []" by code_simp
  have w4: "wiredEmitters (emitters null_listener 4) = [0]" by code_simp
  have n: "\<not> unlisted_throws null_listener 4 ''x''" by code_simp
  have k0: "callbacks_of null_listener 0 ''constructor'' = []" by code_simp
  have k4: "callbacks_of null_listener 4 ''constructor'' = []" by code_simp
  have tc: "unlisted_throws null_listener 4 ''constructor''" by code_simp
  have a4: "audience null_listener 4 ''x'' =
      [(Emitter 0, Fn 1 []), (Emitter 0, Null), (Emitter 0, Fn 2 [])]"
    by (simp add: audience_def listeners_def c0 c4 w4)
  have l0: "listeners null_listener 0 ''x'' =
      [(Emitter 0, Fn 1 []), (Emitter 0, Null), (Emitter 0, Fn 2 [])]"
    by (simp add: listeners_def c0)
  have 1: "thrown (fire 4 ''x'' None null_listener) = None \<and>
      dispatched null_listener (state_of (fire 4 ''x'' None null_listener))
        (filter (\<lambda>x. \<not> falsy (snd x)) (audience null_listener 4 ''x''))"
    using missing_callback_wired_skipped_local_thrown
      [where s = null_listener and A = 4 and H = "''x''" and given = None]
    by (simp add: c0 c4 w4 n falsy_def)
  then have "dispatched null_listener (state_of (fire 4 ''x'' None null_listener))
        (filter (\<lambda>x. \<not> falsy (snd x)) (audience null_listener 4 ''x''))"
    by simp
  then have "map (\<lambda>x. (this x, callee x))
      (made null_listener (state_of (fire 4 ''x'' None null_listener))) =
      calls_of (filter (\<lambda>x. \<not> falsy (snd x)) (audience null_listener 4 ''x''))"
    by (rule dispatched_made)
  then have 2: "map (\<lambda>x. (this x, callee x))
      (made null_listener (state_of (fire 4 ''x'' None null_listener))) =
      [(Emitter 0, Fn 1 []), (Emitter 0, Fn 2 [])]"
    by (simp add: a4 calls_of_def falsy_def)
  have 3: "thrown (fire 0 ''x'' None null_listener) = Some TypeError \<and>
      dispatched null_listener (state_of (fire 0 ''x'' None null_listener))
        (take 1 (listeners null_listener 0 ''x''))"
    using missing_callback_wired_skipped_local_thrown
      [where s = null_listener and A = 0 and H = "''x''" and given = None and evs = ?evs
        and i = 1]
    by (simp add: h0 falsy_def Event_def)
  then have "dispatched null_listener (state_of (fire 0 ''x'' None null_listener))
        (take 1 (listeners null_listener 0 ''x''))"
    by simp
  then have "map (\<lambda>x. (this x, callee x))
      (made null_listener (state_of (fire 0 ''x'' None null_listener))) =
      calls_of (take 1 (listeners null_listener 0 ''x''))"
    by (rule dispatched_made)
  then have 4: "map (\<lambda>x. (this x, callee x))
      (made null_listener (state_of (fire 0 ''x'' None null_listener))) = [(Emitter 0, Fn 1 [])]"
    by (simp add: l0 calls_of_def)
  have 5: "thrown (fire 4 ''constructor'' None null_listener) = Some TypeError"
    using missing_callback_wired_skipped_local_thrown
      [where s = null_listener and A = 4 and H = "''constructor''" and given = None]
    by (simp add: k0 k4 w4 tc)
  from c0 c4 w4 n 1 2 3 4 k4 k0 tc 5 show ?thesis by simp
qed

end
